theory Spec2Isabelle
  imports Main "HOL-Library.Word"
begin

section \<open>QuickEdit v0.2.0: the navigation engine of qe.c\<close>

text \<open>
  The editor works on a memory mapping of the file. The mapping is modelled as a list of
  bytes whose length is \<open>st_size\<close>; offsets are \<open>int64_t\<close> in the source and \<open>int\<close>
  here (no arithmetic on them gets near 63 bits for a file that can be mapped). A read or
  write outside the mapping, or outside the 64-byte search buffer, is undefined behaviour
  in C; the model stops there with \<open>OutOfBounds\<close>, carrying the editor state at the moment
  of the access. The status buffer (a formatted text derived from the other fields), the
  drawing routines and the \<open>msync\<close> call (whose failure ends the process) are left out.
\<close>

unbundle bit_operations_syntax

type_synonym byte = "8 word"

definition NL :: byte where
  "NL = 10"

datatype edit_mode = MODE_NORMAL | MODE_INSERT | MODE_SEARCH

record editor =
  dirty :: bool
  dirty_cursor :: bool
  read_only :: bool
  wrap :: bool
  page :: "byte list"
  page_offset :: int
  page_offset_x :: int
  cursor_x :: "16 word"
  cursor_y :: "16 word"
  mode :: edit_mode
  search_buf :: "byte list"
  search_len :: "64 word"

record terminal =
  width :: int
  height :: int

datatype halt = Exit | OutOfBounds editor

text \<open>How a loop of the source is left: by a \<open>return\<close> inside it, by running to its end
  (or a \<open>break\<close>), or by an access outside the mapping.\<close>

datatype loop_exit = Returned int | Finished int | Faulted

definition st_size :: "editor \<Rightarrow> int" where
  "st_size e = int (length (page e))"

text \<open>C's integer division and remainder truncate towards zero.\<close>

definition c_div :: "int \<Rightarrow> int \<Rightarrow> int" where
  "c_div a b = (if (a < 0) = (b < 0) then \<bar>a\<bar> div \<bar>b\<bar> else - (\<bar>a\<bar> div \<bar>b\<bar>))"

definition c_rem :: "int \<Rightarrow> int \<Rightarrow> int" where
  "c_rem a b = a - b * c_div a b"

subsection \<open>qe_move_window_y\<close>

definition step_of :: "int \<Rightarrow> int" where
  "step_of n = (if n > 0 then 1 else - 1)"

definition an_of :: "int \<Rightarrow> int" where
  "an_of n = (if n > 0 then n else - n)"

text \<open>The \<open>while (1)\<close> loop of \<open>qe_move_window_y\<close>: \<open>i\<close> counts the newlines seen so far,
  \<open>off\<close> is \<open>editor.page_offset\<close>.\<close>

function move_window_y_scan :: "byte list \<Rightarrow> int \<Rightarrow> int \<Rightarrow> int \<Rightarrow> loop_exit" where
  "move_window_y_scan pg n i off =
     (if off < 0 then Returned 0
      else if off \<ge> int (length pg) then Returned (int (length pg) - 1)
      else if pg ! nat off = NL then
        (if i + 1 > an_of n then Finished (off + step_of n)
         else move_window_y_scan pg n (i + 1) (off + step_of n))
      else move_window_y_scan pg n i (off + step_of n))"
  by pat_completeness auto
termination
  by (relation "measure (\<lambda>(pg, n, i, off).
        if n > 0 then nat (int (length pg) - off) else nat (off + 1))")
     (auto simp: step_of_def)

text \<open>The inner loop on the backward path:
  \<open>while (page_offset != 0 && page[page_offset] != '\n') page_offset -= 1\<close>.\<close>

function line_start_scan :: "byte list \<Rightarrow> int \<Rightarrow> int option" where
  "line_start_scan pg off =
     (if off = 0 then Some off
      else if off < 0 \<or> off \<ge> int (length pg) then None
      else if pg ! nat off \<noteq> NL then line_start_scan pg (off - 1)
      else Some off)"
  by pat_completeness auto
termination
  by (relation "measure (\<lambda>(pg, off). nat off)") auto

definition qe_move_window_y :: "int \<Rightarrow> editor \<Rightarrow> halt + editor" where
  "qe_move_window_y n e =
     (case move_window_y_scan (page e) n 0 (page_offset e) of
        Returned off \<Rightarrow> Inr (e\<lparr>page_offset := off\<rparr>)
      | Faulted \<Rightarrow> Inl (OutOfBounds e)
      | Finished off \<Rightarrow>
          if step_of n < 0 then
            (case line_start_scan (page e) off of
               None \<Rightarrow> Inl (OutOfBounds (e\<lparr>page_offset := off\<rparr>))
             | Some off' \<Rightarrow>
                 Inr (e\<lparr>page_offset := (if off' \<noteq> 0 then off' + 1 else off'),
                        dirty := True\<rparr>))
          else Inr (e\<lparr>page_offset := off, dirty := True\<rparr>))"

definition qe_move_window_x :: "int \<Rightarrow> editor \<Rightarrow> editor" where
  "qe_move_window_x n e =
     (if page_offset_x e + n < 0 then e\<lparr>page_offset_x := 0\<rparr>
      else e\<lparr>page_offset_x := page_offset_x e + n, dirty := True\<rparr>)"

subsection \<open>qe_get_cursor_byte_position\<close>

text \<open>\<open>memchr(page + off, c, len)\<close> on the mapping, as the absolute index of the first
  \<open>c\<close> among the \<open>len\<close> bytes from \<open>off\<close> on; \<open>None\<close> is the null pointer. The callers
  check that the range lies inside the mapping.\<close>

fun first_index :: "byte \<Rightarrow> byte list \<Rightarrow> nat option" where
  "first_index c [] = None"
| "first_index c (b # bs) =
     (if b = c then Some 0 else map_option Suc (first_index c bs))"

definition memchr :: "byte list \<Rightarrow> int \<Rightarrow> byte \<Rightarrow> int \<Rightarrow> int option" where
  "memchr pg off c len =
     map_option (\<lambda>k. off + int k) (first_index c (take (nat len) (drop (nat off) pg)))"

text \<open>The \<open>for\<close> loop over \<open>cursor_y\<close> rows; the first argument is the number of rounds
  left. The source assigns \<open>s - &editor.page[offset]\<close>, the distance from the old offset
  to the newline, and adds one.\<close>

fun cursor_line_scan :: "byte list \<Rightarrow> nat \<Rightarrow> int \<Rightarrow> loop_exit" where
  "cursor_line_scan pg 0 offset = Finished offset"
| "cursor_line_scan pg (Suc k) offset =
     (if offset < 0 \<or> int (length pg) < offset then Faulted
      else case memchr pg offset NL (int (length pg) - offset) of
             None \<Rightarrow> Returned (int (length pg) - 1)
           | Some s \<Rightarrow> cursor_line_scan pg k (s - offset + 1))"

definition qe_get_cursor_byte_position :: "editor \<Rightarrow> int option" where
  "qe_get_cursor_byte_position e =
     (case cursor_line_scan (page e) (unat (cursor_y e)) (page_offset e) of
        Faulted \<Rightarrow> None
      | Returned r \<Rightarrow> Some r
      | Finished offset \<Rightarrow>
          Some (if offset + (page_offset_x e + uint (cursor_x e)) \<ge> st_size e
                then st_size e - 1
                else offset + (page_offset_x e + uint (cursor_x e))))"

subsection \<open>qe_search\<close>

text \<open>\<open>memmem\<close> of the C library on two byte lists: the index of the first occurrence of
  the needle in the haystack. An empty needle is found at the start of the haystack, as in
  glibc and musl.\<close>

fun memmem :: "byte list \<Rightarrow> byte list \<Rightarrow> nat option" where
  "memmem [] nd = (if nd = [] then Some 0 else None)"
| "memmem (h # hs) nd =
     (if take (length nd) (h # hs) = nd then Some 0
      else map_option Suc (memmem hs nd))"

text \<open>The result is the offset of the match, or \<open>-1\<close>, as in the source; \<open>None\<close> when the
  haystack or the needle would not lie inside its array.\<close>

definition qe_search :: "editor \<Rightarrow> int \<Rightarrow> int option" where
  "qe_search e offset =
     (if offset < 0 \<or> st_size e < offset \<or> length (search_buf e) < unat (search_len e)
      then None
      else case memmem (drop (nat offset) (page e))
                  (take (unat (search_len e)) (search_buf e)) of
             None \<Rightarrow> Some (- 1)
           | Some p \<Rightarrow> Some (offset + int p))"

subsection \<open>Cursor movement\<close>

definition page_read :: "editor \<Rightarrow> int \<Rightarrow> byte option" where
  "page_read e off =
     (if 0 \<le> off \<and> off < st_size e then Some (page e ! nat off) else None)"

text \<open>The conversion of a 64-bit sum to \<open>int32_t\<close>.\<close>

definition to_int32 :: "int \<Rightarrow> int" where
  "to_int32 v = sint (word_of_int v :: 32 word)"

definition qe_move_cursor_x :: "terminal \<Rightarrow> int \<Rightarrow> editor \<Rightarrow> halt + editor" where
  "qe_move_cursor_x t x e =
     (let new_x = to_int32 (page_offset_x e + uint (cursor_x e) + x) in
      if new_x < 0 then
        Inr (e\<lparr>page_offset_x := 0,
               cursor_x := (if cursor_x e = 0 then 0 else word_of_int (width t - 1)),
               dirty := True, dirty_cursor := True\<rparr>)
      else if new_x \<ge> width t then
        Inr (e\<lparr>page_offset_x := new_x - c_rem new_x (width t),
               cursor_x := word_of_int (c_rem new_x (width t)),
               dirty := True, dirty_cursor := True\<rparr>)
      else if x > 0 then
        (case qe_get_cursor_byte_position e of
           None \<Rightarrow> Inl (OutOfBounds e)
         | Some off \<Rightarrow>
             (case page_read e (off + 1) of
                None \<Rightarrow> Inl (OutOfBounds e)
              | Some b \<Rightarrow>
                  if b = NL then Inr e
                  else Inr (e\<lparr>cursor_x := cursor_x e + word_of_int x,
                              dirty_cursor := True\<rparr>)))
      else Inr (e\<lparr>cursor_x := cursor_x e + word_of_int x, dirty_cursor := True\<rparr>))"

definition qe_move_cursor_y :: "terminal \<Rightarrow> int \<Rightarrow> editor \<Rightarrow> halt + editor" where
  "qe_move_cursor_y t y e =
     (let new_y = uint (cursor_y e) + y in
      if new_y < 0 then
        (if page_offset e = 0 then Inr e
         else case qe_move_window_y (c_div (- height t) 2) e of
                Inl h \<Rightarrow> Inl h
              | Inr e' \<Rightarrow>
                  Inr (e'\<lparr>cursor_y := word_of_int (height t - 2),
                          dirty := True, dirty_cursor := True\<rparr>))
      else if new_y \<ge> height t - 1 then
        (case qe_move_window_y (c_div (height t) 2) e of
           Inl h \<Rightarrow> Inl h
         | Inr e' \<Rightarrow> Inr (e'\<lparr>cursor_y := 0, dirty := True, dirty_cursor := True\<rparr>))
      else Inr (e\<lparr>cursor_y := cursor_y e + word_of_int y, dirty_cursor := True\<rparr>))"

subsection \<open>qe_process_key\<close>

definition CTRL :: "int \<Rightarrow> int" where
  "CTRL k = k AND 0x1f"

definition ENTER :: int where "ENTER = 13"
definition ESC :: int where "ESC = 27"
definition BACKSPACE :: int where "BACKSPACE = 127"
definition PGUP :: int where "PGUP = 0x1ff + 3"
definition PGDN :: int where "PGDN = 0x1ff + 4"
definition ARROW_UP :: int where "ARROW_UP = 0x1ff + 5"
definition ARROW_DOWN :: int where "ARROW_DOWN = 0x1ff + 6"
definition ARROW_RIGHT :: int where "ARROW_RIGHT = 0x1ff + 7"
definition ARROW_LEFT :: int where "ARROW_LEFT = 0x1ff + 8"

definition key :: "char \<Rightarrow> int" where
  "key ch = of_char ch"

text \<open>A store into \<open>editor.search_buf\<close>, an array of 64 bytes.\<close>

definition search_buf_write :: "64 word \<Rightarrow> byte \<Rightarrow> editor \<Rightarrow> halt + editor" where
  "search_buf_write i b e =
     (if unat i < length (search_buf e)
      then Inr (e\<lparr>search_buf := (search_buf e)[unat i := b]\<rparr>)
      else Inl (OutOfBounds e))"

text \<open>After a hit: \<open>while (addr > 0 && editor.page[addr] != '\n') addr -= 1\<close>.\<close>

function match_line_scan :: "byte list \<Rightarrow> int \<Rightarrow> int option" where
  "match_line_scan pg addr =
     (if addr > 0 then
        (if addr \<ge> int (length pg) then None
         else if pg ! nat addr \<noteq> NL then match_line_scan pg (addr - 1)
         else Some addr)
      else Some addr)"
  by pat_completeness auto
termination
  by (relation "measure (\<lambda>(pg, addr). nat addr)") auto

definition process_key_normal :: "terminal \<Rightarrow> int \<Rightarrow> editor \<Rightarrow> halt + editor" where
  "process_key_normal t c e =
     (if c = key CHR ''q'' \<or> c = CTRL (key CHR ''c'') then Inl Exit
      else if c = key CHR ''i'' then
        Inr (if \<not> read_only e then e\<lparr>mode := MODE_INSERT\<rparr> else e)
      else if c = key CHR ''/'' then
        (case search_buf_write 0 0 (e\<lparr>mode := MODE_SEARCH\<rparr>) of
           Inl h \<Rightarrow> Inl h
         | Inr e' \<Rightarrow> Inr (e'\<lparr>search_len := 0, dirty := True\<rparr>))
      else if c = key CHR ''r'' then Inr (e\<lparr>dirty := True\<rparr>)
      else if c = key CHR ''w'' then Inr (e\<lparr>wrap := \<not> wrap e, dirty := True\<rparr>)
      else if c = PGDN \<or> c = CTRL (key CHR ''d'') then qe_move_window_y (height t - 1) e
      else if c = PGUP \<or> c = CTRL (key CHR ''u'') then
        qe_move_window_y (- (height t - 1)) e
      else if c = ARROW_DOWN \<or> c = key CHR ''j'' then qe_move_cursor_y t 1 e
      else if c = ARROW_UP \<or> c = key CHR ''k'' then qe_move_cursor_y t (- 1) e
      else if c = ARROW_LEFT \<or> c = key CHR ''h'' then qe_move_cursor_x t (- 1) e
      else if c = ARROW_RIGHT \<or> c = key CHR ''l'' then qe_move_cursor_x t 1 e
      else if c = CTRL (key CHR ''h'') then
        Inr (qe_move_window_x (c_div (- width t) 2) e)
      else if c = CTRL (key CHR ''l'') then Inr (qe_move_window_x (c_div (width t) 2) e)
      else Inr e)"

text \<open>The \<open>default\<close> branch of Insert mode: the byte is stored at the cursor, then the
  cursor advances.\<close>

definition insert_byte :: "terminal \<Rightarrow> int \<Rightarrow> editor \<Rightarrow> halt + editor" where
  "insert_byte t c e =
     (case qe_get_cursor_byte_position e of
        None \<Rightarrow> Inl (OutOfBounds e)
      | Some off \<Rightarrow>
          if off < 0 \<or> off \<ge> st_size e then Inl (OutOfBounds e)
          else
            (let e1 = e\<lparr>page := (page e)[nat off := word_of_int c]\<rparr> in
             case page_read e1 (off + 1) of
               None \<Rightarrow> Inl (OutOfBounds e1)
             | Some b \<Rightarrow>
                 if b = NL then
                   Inr (e1\<lparr>cursor_x := 0, cursor_y := cursor_y e1 + 1,
                           dirty_cursor := True, dirty := True\<rparr>)
                 else
                   (case qe_move_cursor_x t 1 e1 of
                      Inl h \<Rightarrow> Inl h
                    | Inr e2 \<Rightarrow> Inr (e2\<lparr>dirty := True\<rparr>))))"

definition process_key_insert :: "terminal \<Rightarrow> int \<Rightarrow> editor \<Rightarrow> halt + editor" where
  "process_key_insert t c e =
     (if c = CTRL (key CHR ''c'') then Inl Exit
      else if c = ESC then Inr (e\<lparr>mode := MODE_NORMAL\<rparr>)
      else if c = PGDN \<or> c = CTRL (key CHR ''d'') then qe_move_window_y (height t - 1) e
      else if c = PGUP \<or> c = CTRL (key CHR ''u'') then
        qe_move_window_y (- (height t - 1)) e
      else if c = ARROW_DOWN then qe_move_cursor_y t 1 e
      else if c = ARROW_UP then qe_move_cursor_y t (- 1) e
      else if c = ARROW_LEFT then qe_move_cursor_x t (- 1) e
      else if c = ARROW_RIGHT then qe_move_cursor_x t 1 e
      else if c = CTRL (key CHR ''h'') then
        Inr (qe_move_window_x (c_div (- width t) 2) e)
      else if c = CTRL (key CHR ''l'') then Inr (qe_move_window_x (c_div (width t) 2) e)
      else insert_byte t c e)"

text \<open>The \<open>ENTER\<close> branch of Search mode.\<close>

definition search_confirm :: "editor \<Rightarrow> halt + editor" where
  "search_confirm e =
     (let e1 = e\<lparr>mode := MODE_NORMAL\<rparr> in
      case qe_get_cursor_byte_position e1 of
        None \<Rightarrow> Inl (OutOfBounds e1)
      | Some off \<Rightarrow>
          (case qe_search e1 (off + 1) of
             None \<Rightarrow> Inl (OutOfBounds e1)
           | Some actual_addr \<Rightarrow>
               if actual_addr = - 1 then Inr e1
               else
                 (case match_line_scan (page e1) actual_addr of
                    None \<Rightarrow> Inl (OutOfBounds e1)
                  | Some a \<Rightarrow>
                      (let addr = (if a \<noteq> 0 then a + 1 else a) in
                       Inr (e1\<lparr>page_offset := addr,
                               page_offset_x := actual_addr - addr,
                               dirty := True\<rparr>)))))"

text \<open>The \<open>default\<close> branch of Search mode; \<open>sizeof(editor.search_buf) - 1\<close> is 63 and
  \<open>search_len\<close> is a \<open>size_t\<close> of 64 bits.\<close>

definition search_type :: "int \<Rightarrow> editor \<Rightarrow> halt + editor" where
  "search_type c e =
     (if search_len e \<ge> 63 then Inr e
      else if c \<noteq> BACKSPACE then
        (case search_buf_write (search_len e) (word_of_int c) e of
           Inl h \<Rightarrow> Inl h
         | Inr e1 \<Rightarrow>
             (case search_buf_write (search_len e1 + 1) 0
                     (e1\<lparr>search_len := search_len e1 + 1\<rparr>) of
                Inl h \<Rightarrow> Inl h
              | Inr e2 \<Rightarrow> Inr (e2\<lparr>dirty := True\<rparr>)))
      else
        (case search_buf_write (search_len e - 1) 0
                (e\<lparr>search_len := search_len e - 1\<rparr>) of
           Inl h \<Rightarrow> Inl h
         | Inr e1 \<Rightarrow> Inr (e1\<lparr>dirty := True\<rparr>)))"

definition process_key_search :: "int \<Rightarrow> editor \<Rightarrow> halt + editor" where
  "process_key_search c e =
     (if c = CTRL (key CHR ''c'') then Inl Exit
      else if c = ESC then Inr (e\<lparr>mode := MODE_NORMAL\<rparr>)
      else if c = ENTER then search_confirm e
      else search_type c e)"

definition qe_process_key :: "terminal \<Rightarrow> int \<Rightarrow> editor \<Rightarrow> halt + editor" where
  "qe_process_key t c e =
     (case mode e of
        MODE_NORMAL \<Rightarrow> process_key_normal t c e
      | MODE_INSERT \<Rightarrow> process_key_insert t c e
      | MODE_SEARCH \<Rightarrow> process_key_search c e)"

text \<open>A sequence of keys, stopping at the first halt.\<close>

fun process_keys :: "terminal \<Rightarrow> int list \<Rightarrow> editor \<Rightarrow> halt + editor" where
  "process_keys t [] e = Inr e"
| "process_keys t (c # cs) e =
     (case qe_process_key t c e of Inl h \<Rightarrow> Inl h | Inr e' \<Rightarrow> process_keys t cs e')"

text \<open>The state after \<open>qe_init\<close> and \<open>qe_open\<close> on a file with the given bytes.\<close>

definition initial :: "bool \<Rightarrow> byte list \<Rightarrow> editor" where
  "initial ro pg =
     \<lparr>dirty = True, dirty_cursor = False, read_only = ro, wrap = False, page = pg,
      page_offset = 0, page_offset_x = 0, cursor_x = 0, cursor_y = 0,
      mode = MODE_NORMAL, search_buf = replicate 64 0, search_len = 0\<rparr>"

definition bytes_of :: "string \<Rightarrow> byte list" where
  "bytes_of s = map of_char s"

subsection \<open>Notions used to state the properties\<close>

text \<open>A newline byte at offset \<open>k\<close> of the mapping.\<close>

definition nl_at :: "byte list \<Rightarrow> int \<Rightarrow> bool" where
  "nl_at pg k = (0 \<le> k \<and> k < int (length pg) \<and> pg ! nat k = NL)"

text \<open>The number of newline bytes at the offsets \<open>a \<le> k < b\<close>.\<close>

definition nl_count :: "byte list \<Rightarrow> int \<Rightarrow> int \<Rightarrow> nat" where
  "nl_count pg a b = (\<Sum>k = a..<b. if nl_at pg k then 1 else 0)"

text \<open>\<open>qe_move_window_y\<close> clamps when its loop is left through one of the two early
  returns at a file boundary.\<close>

definition clamps :: "int \<Rightarrow> editor \<Rightarrow> bool" where
  "clamps n e =
     (case move_window_y_scan (page e) n 0 (page_offset e) of
        Finished off \<Rightarrow> False
      | Returned off \<Rightarrow> True
      | Faulted \<Rightarrow> True)"

text \<open>\<open>page_offset\<close> is on a line start: offset 0, or one past a newline byte.\<close>

definition line_aligned :: "editor \<Rightarrow> bool" where
  "line_aligned e = (page_offset e = 0 \<or> nl_at (page e) (page_offset e - 1))"

text \<open>Vertical scrolling only: a sequence of calls of \<open>qe_move_window_y\<close>.\<close>

fun scroll_all :: "int list \<Rightarrow> editor \<Rightarrow> halt + editor" where
  "scroll_all [] e = Inr e"
| "scroll_all (n # ns) e =
     (case qe_move_window_y n e of Inl h \<Rightarrow> Inl h | Inr e' \<Rightarrow> scroll_all ns e')"

text \<open>The pattern held in the search buffer, and its occurrence at an offset of the
  mapping.\<close>

definition pattern :: "editor \<Rightarrow> byte list" where
  "pattern e = take (unat (search_len e)) (search_buf e)"

definition occurs_at :: "editor \<Rightarrow> int \<Rightarrow> bool" where
  "occurs_at e off =
     (0 \<le> off \<and> off + int (length (pattern e)) \<le> st_size e \<and>
      take (length (pattern e)) (drop (nat off) (page e)) = pattern e)"

text \<open>The offset \<open>L\<close> of the first byte of the cursor's row, for the rows on which it is
  plain from the state: row 0 starts at \<open>page_offset\<close>, and row 1, when \<open>page_offset\<close> is
  0, starts one past the first newline of the file.\<close>

definition cursor_row_start :: "editor \<Rightarrow> int \<Rightarrow> bool" where
  "cursor_row_start e L =
     ((cursor_y e = 0 \<and> L = page_offset e \<and> 0 \<le> L) \<or>
      (cursor_y e = 1 \<and> page_offset e = 0 \<and> nl_at (page e) (L - 1) \<and>
       nl_count (page e) 0 (L - 1) = 0))"

text \<open>The editor state a key leaves behind, also when the key's processing stopped at an
  access outside the mapping; nothing is left after \<open>exit\<close>.\<close>

fun state_after :: "halt + editor \<Rightarrow> editor option" where
  "state_after (Inr e) = Some e"
| "state_after (Inl (OutOfBounds e)) = Some e"
| "state_after (Inl Exit) = None"

lemmas key_defs = key_def CTRL_def ENTER_def ESC_def BACKSPACE_def PGUP_def PGDN_def
  ARROW_UP_def ARROW_DOWN_def ARROW_LEFT_def ARROW_RIGHT_def

lemmas process_key_defs = qe_process_key_def process_key_normal_def process_key_insert_def
  process_key_search_def search_type_def search_buf_write_def insert_byte_def

declare move_window_y_scan.simps [simp del] line_start_scan.simps [simp del]
  match_line_scan.simps [simp del]

lemmas scan_simps = move_window_y_scan.simps line_start_scan.simps match_line_scan.simps

lemmas eval_defs = initial_def bytes_of_def qe_move_window_y_def step_of_def an_of_def NL_def
  nl_at_def clamps_def line_aligned_def st_size_def scan_simps

lemmas search_eval = qe_search_def initial_def bytes_of_def st_size_def occurs_at_def pattern_def

lemmas nav_defs = scan_simps qe_move_window_y_def qe_move_cursor_x_def qe_move_cursor_y_def
  qe_get_cursor_byte_position_def page_read_def st_size_def memchr_def to_int32_def
  step_of_def an_of_def NL_def c_div_def c_rem_def

lemmas cursor_eval = initial_def bytes_of_def nav_defs key_defs process_key_defs

section \<open>Scrolling by lines\<close>

subsection \<open>Counting newlines\<close>

lemma nl_count_empty: "b \<le> a \<Longrightarrow> nl_count pg a b = 0"
  by (simp add: nl_count_def)

lemma nl_count_split: "a \<le> b \<Longrightarrow> b \<le> c \<Longrightarrow> nl_count pg a c = nl_count pg a b + nl_count pg b c"
proof -
  assume h: "a \<le> b" "b \<le> c"
  have "{a..<c} = {a..<b} \<union> {b..<c}" using h by auto
  moreover have "{a..<b} \<inter> {b..<c} = {}" by auto
  ultimately show ?thesis
    by (simp add: nl_count_def sum.union_disjoint)
qed

lemma nl_count_single: "nl_count pg a (a + 1) = (if nl_at pg a then 1 else 0)"
proof -
  have "{a..<a + 1} = {a}" by auto
  then show ?thesis by (simp add: nl_count_def)
qed

lemma nl_count_first: "a < b \<Longrightarrow> nl_count pg a b = (if nl_at pg a then 1 else 0) + nl_count pg (a + 1) b"
  using nl_count_split [of a "a + 1" b pg] by (simp add: nl_count_single)

lemma nl_count_first_eq:
  "a < b \<Longrightarrow> a' = a + 1 \<Longrightarrow>
     nl_count pg a b = (if nl_at pg a then 1 else 0) + nl_count pg a' b"
  using nl_count_first [of a b pg] by simp

lemma nl_count_last: "a \<le> b \<Longrightarrow> nl_count pg a (b + 1) = nl_count pg a b + (if nl_at pg b then 1 else 0)"
  using nl_count_split [of a b "b + 1" pg] by (simp add: nl_count_single)

lemma nl_count_zero: "nl_count pg a b = 0 \<Longrightarrow> a \<le> k \<Longrightarrow> k < b \<Longrightarrow> \<not> nl_at pg k"
  by (auto simp: nl_count_def dest!: bspec [where x = k])

lemma nl_count_pos: "nl_at pg k \<Longrightarrow> a \<le> k \<Longrightarrow> k < b \<Longrightarrow> 0 < nl_count pg a b"
  using nl_count_zero [of pg a b k] by auto

lemma scan_Returned: "move_window_y_scan pg n i off = Returned r \<Longrightarrow> r = 0 \<or> r = int (length pg) - 1"
  by (induction pg n i off rule: move_window_y_scan.induct)
     (subst (asm) move_window_y_scan.simps, auto split: if_splits)

lemma scan_not_Faulted: "move_window_y_scan pg n i off \<noteq> Faulted"
  by (induction pg n i off rule: move_window_y_scan.induct)
     (subst move_window_y_scan.simps, auto split: if_splits)

lemma scan_Finished_range: "move_window_y_scan pg n i off = Finished q \<Longrightarrow> 0 \<le> off \<and> off < int (length pg)"
  by (subst (asm) move_window_y_scan.simps) (auto split: if_splits)

lemma scan_forward:
  "0 < n \<Longrightarrow> i \<le> n \<Longrightarrow> move_window_y_scan pg n i off = Finished q \<Longrightarrow>
     nl_at pg (q - 1) \<and> off \<le> q - 1 \<and> i + int (nl_count pg off (q - 1)) = n"
proof (induction pg n i off rule: move_window_y_scan.induct)
  case (1 pg n i off)
  from "1.prems"(3) have rng: "0 \<le> off" "off < int (length pg)"
    using scan_Finished_range by blast+
  show ?case
  proof (cases "pg ! nat off = NL")
    case True
    then have nl: "nl_at pg off" using rng by (simp add: nl_at_def)
    show ?thesis
    proof (cases "i + 1 > an_of n")
      case True
      with "1.prems" \<open>pg ! nat off = NL\<close> rng have "q = off + 1"
        by (subst (asm) move_window_y_scan.simps) (simp add: step_of_def)
      with nl True "1.prems" show ?thesis by (simp add: an_of_def nl_count_empty)
    next
      case False
      with "1.prems" \<open>pg ! nat off = NL\<close> rng
      have rec: "move_window_y_scan pg n (i + 1) (off + 1) = Finished q"
        by (subst (asm) move_window_y_scan.simps) (simp add: step_of_def)
      from False "1.prems" have "i + 1 \<le> n" by (simp add: an_of_def)
      with "1.IH"(1) [OF _ _ \<open>pg ! nat off = NL\<close> False] rng "1.prems" rec
      have ih: "nl_at pg (q - 1) \<and> off + 1 \<le> q - 1 \<and> i + 1 + int (nl_count pg (off + 1) (q - 1)) = n"
        by (simp add: step_of_def)
      then have "nl_count pg off (q - 1) = 1 + nl_count pg (off + 1) (q - 1)"
        using nl nl_count_first [of off "q - 1" pg] by simp
      with ih show ?thesis by simp
    qed
  next
    case False
    then have nl: "\<not> nl_at pg off" by (simp add: nl_at_def)
    from False "1.prems" rng
    have rec: "move_window_y_scan pg n i (off + 1) = Finished q"
      by (subst (asm) move_window_y_scan.simps) (simp add: step_of_def)
    with "1.IH"(2) [OF _ _ False] rng "1.prems"
    have ih: "nl_at pg (q - 1) \<and> off + 1 \<le> q - 1 \<and> i + int (nl_count pg (off + 1) (q - 1)) = n"
      by (simp add: step_of_def)
    then have "nl_count pg off (q - 1) = nl_count pg (off + 1) (q - 1)"
      using nl nl_count_first [of off "q - 1" pg] by simp
    with ih show ?thesis by simp
  qed
qed


lemma scan_backward:
  "n \<le> 0 \<Longrightarrow> i \<le> - n \<Longrightarrow> move_window_y_scan pg n i off = Finished q \<Longrightarrow>
     nl_at pg (q + 1) \<and> q + 1 \<le> off \<and> i + int (nl_count pg (q + 2) (off + 1)) = - n"
proof (induction pg n i off rule: move_window_y_scan.induct)
  case (1 pg n i off)
  from "1.prems"(3) have rng: "0 \<le> off" "off < int (length pg)"
    using scan_Finished_range by blast+
  show ?case
  proof (cases "pg ! nat off = NL")
    case True
    then have nl: "nl_at pg off" using rng by (simp add: nl_at_def)
    show ?thesis
    proof (cases "i + 1 > an_of n")
      case True
      with "1.prems" \<open>pg ! nat off = NL\<close> rng have "q = off - 1"
        by (subst (asm) move_window_y_scan.simps) (simp add: step_of_def)
      with nl True "1.prems" show ?thesis by (simp add: an_of_def nl_count_empty)
    next
      case False
      with "1.prems" \<open>pg ! nat off = NL\<close> rng
      have rec: "move_window_y_scan pg n (i + 1) (off - 1) = Finished q"
        by (subst (asm) move_window_y_scan.simps) (simp add: step_of_def)
      from False "1.prems" have "i + 1 \<le> - n" by (simp add: an_of_def)
      with "1.IH"(1) [OF _ _ \<open>pg ! nat off = NL\<close> False] rng "1.prems" rec
      have ih: "nl_at pg (q + 1) \<and> q + 1 \<le> off - 1 \<and>
                i + 1 + int (nl_count pg (q + 2) off) = - n"
        by (simp add: step_of_def)
      then have "nl_count pg (q + 2) (off + 1) = nl_count pg (q + 2) off + 1"
        using nl nl_count_last [of "q + 2" off pg] by simp
      with ih show ?thesis by simp
    qed
  next
    case False
    then have nl: "\<not> nl_at pg off" by (simp add: nl_at_def)
    from False "1.prems" rng
    have rec: "move_window_y_scan pg n i (off - 1) = Finished q"
      by (subst (asm) move_window_y_scan.simps) (simp add: step_of_def)
    with "1.IH"(2) [OF _ _ False] rng "1.prems"
    have ih: "nl_at pg (q + 1) \<and> q + 1 \<le> off - 1 \<and> i + int (nl_count pg (q + 2) off) = - n"
      by (simp add: step_of_def)
    then have "nl_count pg (q + 2) (off + 1) = nl_count pg (q + 2) off"
      using nl nl_count_last [of "q + 2" off pg] by simp
    with ih show ?thesis by simp
  qed
qed

lemma line_start_scan_Some:
  "line_start_scan pg q = Some r \<Longrightarrow>
     r \<le> q \<and> (r = 0 \<or> nl_at pg r) \<and> (\<forall>k. r < k \<and> k \<le> q \<longrightarrow> \<not> nl_at pg k)"
proof (induction pg q rule: line_start_scan.induct)
  case (1 pg off)
  show ?case
  proof (cases "off = 0 \<or> pg ! nat off = NL")
    case True
    with "1.prems" have "r = off \<and> (off = 0 \<or> nl_at pg off)"
      by (subst (asm) line_start_scan.simps) (auto simp: nl_at_def split: if_splits)
    then show ?thesis by auto
  next
    case False
    with "1.prems" have rng: "0 < off" "off < int (length pg)"
      and rec: "line_start_scan pg (off - 1) = Some r"
      by (subst (asm) line_start_scan.simps, auto split: if_splits)+
    from "1.IH" [OF _ _ _ rec] False rng
    have ih: "r \<le> off - 1 \<and> (r = 0 \<or> nl_at pg r) \<and>
              (\<forall>k. r < k \<and> k \<le> off - 1 \<longrightarrow> \<not> nl_at pg k)"
      by auto
    from False have noff: "\<not> nl_at pg off" by (simp add: nl_at_def)
    have "\<not> nl_at pg k" if "r < k \<and> k \<le> off" for k
    proof (cases "k = off")
      case True
      with noff show ?thesis by simp
    next
      case False
      with that ih show ?thesis by simp
    qed
    with ih show ?thesis by auto
  qed
qed

lemma line_start_scan_total:
  "0 \<le> q \<Longrightarrow> q < int (length pg) \<Longrightarrow> \<exists>r. line_start_scan pg q = Some r"
proof (induction pg q rule: line_start_scan.induct)
  case (1 pg off)
  show ?case
  proof (cases "off = 0 \<or> pg ! nat off = NL")
    case True
    with "1.prems" show ?thesis
      by (subst line_start_scan.simps) auto
  next
    case False
    with "1.IH" "1.prems" have "\<exists>r. line_start_scan pg (off - 1) = Some r" by auto
    with False "1.prems" show ?thesis
      by (subst line_start_scan.simps) auto
  qed
qed

subsection \<open>There and back\<close>

lemma round_trip_forward_first:
  assumes n: "0 < n" and first: "\<not> nl_at pg 0 \<or> 2 \<le> p0"
    and al: "p0 = 0 \<or> nl_at pg (p0 - 1)"
    and fw: "move_window_y_scan pg n 0 p0 = Finished p1"
    and ne: "\<not> nl_at pg p1"
    and bw: "move_window_y_scan pg (- n) 0 p1 = Finished q"
  shows "\<exists>r. line_start_scan pg q = Some r \<and> (if r \<noteq> 0 then r + 1 else r) = p0"
proof -
  from fw have p0: "0 \<le> p0" using scan_Finished_range by blast
  from bw have p1: "p1 < int (length pg)" using scan_Finished_range by blast
  from scan_forward [OF n _ fw] n
  have F: "nl_at pg (p1 - 1)" "p0 \<le> p1 - 1" "int (nl_count pg p0 (p1 - 1)) = n" by auto
  from scan_backward [OF _ _ bw] n
  have B: "nl_at pg (q + 1)" "q + 1 \<le> p1" "int (nl_count pg (q + 2) (p1 + 1)) = n" by auto
  from B(1) ne have "q + 1 \<noteq> p1" by auto
  with B(2) have q2: "q + 2 \<le> p1" by simp
  have c1: "int (nl_count pg (q + 2) p1) = n"
    using nl_count_last [of "q + 2" p1 pg] q2 ne B(3) by simp
  have c2: "int (nl_count pg (q + 1) p1) = n + 1"
    using nl_count_first_eq [of "q + 1" p1 "q + 2" pg] B(1) q2 c1 by simp
  have c3: "int (nl_count pg p0 p1) = n + 1"
    using nl_count_last [of p0 "p1 - 1" pg] F by simp
  have ge: "p0 \<le> q + 1"
  proof (rule ccontr)
    assume "\<not> p0 \<le> q + 1"
    then have lt: "q + 1 < p0" by simp
    have "0 < nl_count pg (q + 1) p0" using nl_count_pos [OF B(1), of "q + 1" p0] lt by simp
    moreover have "nl_count pg (q + 1) p1 = nl_count pg (q + 1) p0 + nl_count pg p0 p1"
      using nl_count_split [of "q + 1" p0 p1 pg] lt F(2) by simp
    ultimately show False using c2 c3 by simp
  qed
  have "nl_count pg p0 p1 = nl_count pg p0 (q + 1) + nl_count pg (q + 1) p1"
    using nl_count_split [of p0 "q + 1" p1 pg] ge B(2) by simp
  with c2 c3 have z: "nl_count pg p0 (q + 1) = 0" by simp
  have q0: "0 \<le> q"
  proof (rule ccontr)
    assume "\<not> 0 \<le> q"
    with ge p0 have "q + 1 = 0" by simp
    with B(1) first ge show False by auto
  qed
  from q0 B(2) p1 obtain r where r: "line_start_scan pg q = Some r"
    using line_start_scan_total [of q pg] by auto
  from line_start_scan_Some [OF r]
  have R: "r \<le> q" "r = 0 \<or> nl_at pg r" "\<And>k. r < k \<Longrightarrow> k \<le> q \<Longrightarrow> \<not> nl_at pg k" by auto
  have "(if r \<noteq> 0 then r + 1 else r) = p0"
  proof (cases "p0 = 0")
    case True
    have "r = 0"
    proof (rule ccontr)
      assume "r \<noteq> 0"
      with R(2) have "nl_at pg r" by simp
      moreover from this have "0 \<le> r" by (simp add: nl_at_def)
      ultimately show False using nl_count_zero [OF z, of r] True R(1) by simp
    qed
    with True show ?thesis by simp
  next
    case False
    with al have a: "nl_at pg (p0 - 1)" by simp
    have "\<not> r < p0 - 1" using R(3) [of "p0 - 1"] a ge by auto
    moreover have "\<not> p0 \<le> r"
    proof
      assume h: "p0 \<le> r"
      with p0 False have "r \<noteq> 0" by simp
      with R(2) have "nl_at pg r" by simp
      with nl_count_zero [OF z, of r] h R(1) show False by simp
    qed
    ultimately have req: "r = p0 - 1" by simp
    with a first have "r \<noteq> 0" by auto
    with req show ?thesis by simp
  qed
  with r show ?thesis by blast
qed

lemma round_trip_backward_first:
  assumes n: "n < 0"
    and first: "\<not> nl_at pg 0 \<or> 2 \<le> (if r \<noteq> 0 then r + 1 else r)"
    and al: "p0 = 0 \<or> nl_at pg (p0 - 1)"
    and ne: "\<not> nl_at pg p0"
    and bw: "move_window_y_scan pg n 0 p0 = Finished q"
    and r: "line_start_scan pg q = Some r"
    and fw: "move_window_y_scan pg (- n) 0 (if r \<noteq> 0 then r + 1 else r) = Finished q2"
  shows "q2 = p0"
proof -
  define p1 where "p1 = (if r \<noteq> 0 then r + 1 else r)"
  from scan_backward [OF _ _ bw] n
  have B: "nl_at pg (q + 1)" "q + 1 \<le> p0" "int (nl_count pg (q + 2) (p0 + 1)) = - n" by auto
  from line_start_scan_Some [OF r]
  have R: "r \<le> q" "r = 0 \<or> nl_at pg r" "\<And>k. r < k \<Longrightarrow> k \<le> q \<Longrightarrow> \<not> nl_at pg k" by auto
  from fw have fw': "move_window_y_scan pg (- n) 0 p1 = Finished q2" by (simp add: p1_def)
  from scan_forward [OF _ _ fw'] n
  have F: "nl_at pg (q2 - 1)" "p1 \<le> q2 - 1" "int (nl_count pg p1 (q2 - 1)) = - n" by auto
  have p1q: "p1 \<le> q + 1" using R(1) by (simp add: p1_def)
  have none: "\<not> nl_at pg k" if "p1 \<le> k" "k \<le> q" for k
  proof (cases "r = 0")
    case True
    with that R(3) [of k] first show ?thesis by (cases "k = 0") (auto simp: p1_def)
  next
    case False
    with that R(3) [of k] show ?thesis by (simp add: p1_def)
  qed
  have z: "nl_count pg p1 (q + 1) = 0"
  proof (rule ccontr)
    assume "nl_count pg p1 (q + 1) \<noteq> 0"
    then have "\<exists>k\<in>{p1..<q + 1}. nl_at pg k"
      by (auto simp: nl_count_def split: if_splits)
    with none show False by auto
  qed
  from B(1) ne have "q + 1 \<noteq> p0" by auto
  with B(2) have q2: "q + 2 \<le> p0" by simp
  have c1: "int (nl_count pg (q + 2) p0) = - n"
    using nl_count_last [of "q + 2" p0 pg] q2 ne B(3) by simp
  have c2: "int (nl_count pg (q + 1) p0) = - n + 1"
    using nl_count_first_eq [of "q + 1" p0 "q + 2" pg] B(1) q2 c1 by simp
  have c3: "int (nl_count pg p1 p0) = - n + 1"
    using nl_count_split [of p1 "q + 1" p0 pg] p1q B(2) z c2 by simp
  from B(1) have "0 \<le> q + 1" by (simp add: nl_at_def)
  with q2 al have a: "nl_at pg (p0 - 1)" by auto
  have c4: "int (nl_count pg p1 (p0 - 1)) = - n"
    using nl_count_last [of p1 "p0 - 1" pg] a c3 p1q q2 by simp
  have "q2 - 1 = p0 - 1"
  proof (rule ccontr)
    assume d: "q2 - 1 \<noteq> p0 - 1"
    show False
    proof (cases "q2 - 1 < p0 - 1")
      case True
      have "nl_count pg p1 (p0 - 1) = nl_count pg p1 (q2 - 1) + nl_count pg (q2 - 1) (p0 - 1)"
        using nl_count_split [of p1 "q2 - 1" "p0 - 1" pg] F(2) True by simp
      moreover have "0 < nl_count pg (q2 - 1) (p0 - 1)"
        using nl_count_pos [OF F(1), of "q2 - 1" "p0 - 1"] True by simp
      ultimately show False using c4 F(3) by simp
    next
      case False
      with d have lt: "p0 - 1 < q2 - 1" by simp
      have "nl_count pg p1 (q2 - 1) = nl_count pg p1 (p0 - 1) + nl_count pg (p0 - 1) (q2 - 1)"
        using nl_count_split [of p1 "p0 - 1" "q2 - 1" pg] p1q q2 lt by simp
      moreover have "0 < nl_count pg (p0 - 1) (q2 - 1)"
        using nl_count_pos [OF a, of "p0 - 1" "q2 - 1"] lt by simp
      ultimately show False using c4 F(3) by simp
    qed
  qed
  then show ?thesis by simp
qed

lemma qe_move_window_y_Inr:
  assumes "qe_move_window_y n e = Inr e'"
  shows "page e' = page e \<and>
         (page_offset e' = 0 \<or> page_offset e' = st_size e' - 1 \<or>
          nl_at (page e') (page_offset e' - 1))"
proof (cases "move_window_y_scan (page e) n 0 (page_offset e)")
  case (Returned r)
  with assms have "e' = e\<lparr>page_offset := r\<rparr>" by (simp add: qe_move_window_y_def)
  with scan_Returned [OF Returned] show ?thesis by (auto simp: st_size_def)
next
  case (Finished q)
  show ?thesis
  proof (cases "n > 0")
    case True
    with assms Finished have "e' = e\<lparr>page_offset := q, dirty := True\<rparr>"
      by (simp add: qe_move_window_y_def step_of_def)
    with scan_forward [OF True _ Finished] True show ?thesis by simp
  next
    case False
    with assms Finished obtain r where r: "line_start_scan (page e) q = Some r"
      and e': "e' = e\<lparr>page_offset := (if r \<noteq> 0 then r + 1 else r), dirty := True\<rparr>"
      by (auto simp: qe_move_window_y_def step_of_def split: option.splits)
    from line_start_scan_Some [OF r] have "r = 0 \<or> nl_at (page e) r" by simp
    with e' show ?thesis by auto
  qed
next
  case Faulted
  with scan_not_Faulted show ?thesis by blast
qed

lemma qe_move_window_y_no_fault:
  assumes "\<not> nl_at (page e) 0"
  shows "\<exists>e'. qe_move_window_y n e = Inr e'"
proof (cases "move_window_y_scan (page e) n 0 (page_offset e)")
  case (Returned r)
  then show ?thesis by (simp add: qe_move_window_y_def)
next
  case (Finished q)
  show ?thesis
  proof (cases "n > 0")
    case True
    with Finished show ?thesis by (simp add: qe_move_window_y_def step_of_def)
  next
    case False
    with scan_backward [OF _ _ Finished]
    have B: "nl_at (page e) (q + 1)" "q + 1 \<le> page_offset e" by auto
    from scan_Finished_range [OF Finished] have "page_offset e < int (length (page e))" by simp
    moreover from B(1) assms have "0 \<le> q" by (cases "q = - 1") (auto simp: nl_at_def)
    ultimately obtain r where "line_start_scan (page e) q = Some r"
      using line_start_scan_total [of q "page e"] B(2) by auto
    with Finished False show ?thesis by (simp add: qe_move_window_y_def step_of_def)
  qed
next
  case Faulted
  with scan_not_Faulted show ?thesis by blast
qed

text \<open>
  C1. The specification expects \<open>scrollByLines(1)\<close> from \<open>page_offset = 0\<close> in the 17-byte
  buffer \<open>"abcdefghij\nklmno\n"\<close> to stop at offset 11, one past the first newline. The
  loop tests \<open>++i > an\<close>, so it only stops at the second newline it meets: the call ends
  with \<open>page_offset = 17\<close>, one past the last byte of the file, where the comment on the
  function promises a scan past \<open>n\<close> newlines.
\<close>

theorem scroll_one_line_overshoots:
  "qe_move_window_y 1 (initial False (bytes_of ''abcdefghij\<newline>klmno\<newline>'')) =
     Inr ((initial False (bytes_of ''abcdefghij\<newline>klmno\<newline>''))
            \<lparr>page_offset := 17, dirty := True\<rparr>)"
  by (simp add: eval_defs)

text \<open>
  C2, as the specification states it: for every buffer and every \<open>n\<close>, \<open>scrollByLines(n)\<close>
  followed by \<open>scrollByLines(-n)\<close> restores \<open>page_offset\<close> when neither call clamps.
  This fails from the initial state of the buffer \<open>"a\nb\n\nc\n"\<close> with \<open>n = 1\<close>: the
  first call stops on the empty third line (offset 4); the backward scan starts on the
  newline byte of that line and counts it, so it goes back one line less and ends at
  offset 2, not 0. Neither call clamps.
\<close>

theorem scroll_round_trip_counterexample:
  "page_offset (initial False (bytes_of ''a\<newline>b\<newline>\<newline>c\<newline>'')) = 0
   \<and> \<not> clamps 1 (initial False (bytes_of ''a\<newline>b\<newline>\<newline>c\<newline>''))
   \<and> qe_move_window_y 1 (initial False (bytes_of ''a\<newline>b\<newline>\<newline>c\<newline>'')) =
       Inr ((initial False (bytes_of ''a\<newline>b\<newline>\<newline>c\<newline>''))\<lparr>page_offset := 4, dirty := True\<rparr>)
   \<and> \<not> clamps (- 1)
         ((initial False (bytes_of ''a\<newline>b\<newline>\<newline>c\<newline>''))\<lparr>page_offset := 4, dirty := True\<rparr>)
   \<and> qe_move_window_y (- 1)
         ((initial False (bytes_of ''a\<newline>b\<newline>\<newline>c\<newline>''))\<lparr>page_offset := 4, dirty := True\<rparr>) =
       Inr ((initial False (bytes_of ''a\<newline>b\<newline>\<newline>c\<newline>''))\<lparr>page_offset := 2, dirty := True\<rparr>)"
  by (simp add: eval_defs)

text \<open>
  Three more ways in which the pair of calls does not come back, none with a clamp:
  \<open>n = 0\<close> scans backward both times; a start in the middle of a line (here the last byte,
  where an earlier call clamped) is rounded to a line start by the backward scan; and a
  backward scan that reaches offset 0 stays there even when the byte at 0 is a newline and
  the line starts at offset 1.
\<close>

lemma scroll_round_trip_zero:
  "\<not> clamps 0 ((initial False (bytes_of ''a\<newline>b\<newline>c\<newline>''))\<lparr>page_offset := 4\<rparr>)
   \<and> qe_move_window_y 0 ((initial False (bytes_of ''a\<newline>b\<newline>c\<newline>''))\<lparr>page_offset := 4\<rparr>) =
       Inr ((initial False (bytes_of ''a\<newline>b\<newline>c\<newline>''))\<lparr>page_offset := 2, dirty := True\<rparr>)
   \<and> \<not> clamps (- 0) ((initial False (bytes_of ''a\<newline>b\<newline>c\<newline>''))\<lparr>page_offset := 2, dirty := True\<rparr>)
   \<and> qe_move_window_y (- 0)
         ((initial False (bytes_of ''a\<newline>b\<newline>c\<newline>''))\<lparr>page_offset := 2, dirty := True\<rparr>) =
       Inr ((initial False (bytes_of ''a\<newline>b\<newline>c\<newline>''))\<lparr>page_offset := 0, dirty := True\<rparr>)"
  by (simp add: eval_defs)

lemma scroll_round_trip_mid_line:
  "\<not> clamps (- 1) ((initial False (bytes_of ''a\<newline>b\<newline>c\<newline>def''))\<lparr>page_offset := 8\<rparr>)
   \<and> qe_move_window_y (- 1) ((initial False (bytes_of ''a\<newline>b\<newline>c\<newline>def''))\<lparr>page_offset := 8\<rparr>) =
       Inr ((initial False (bytes_of ''a\<newline>b\<newline>c\<newline>def''))\<lparr>page_offset := 2, dirty := True\<rparr>)
   \<and> \<not> clamps 1 ((initial False (bytes_of ''a\<newline>b\<newline>c\<newline>def''))\<lparr>page_offset := 2, dirty := True\<rparr>)
   \<and> qe_move_window_y 1
         ((initial False (bytes_of ''a\<newline>b\<newline>c\<newline>def''))\<lparr>page_offset := 2, dirty := True\<rparr>) =
       Inr ((initial False (bytes_of ''a\<newline>b\<newline>c\<newline>def''))\<lparr>page_offset := 6, dirty := True\<rparr>)"
  by (simp add: eval_defs)

lemma scroll_round_trip_leading_newline:
  "\<not> clamps (- 1) ((initial False (bytes_of ''\<newline>ab\<newline>cd\<newline>ef\<newline>''))\<lparr>page_offset := 7\<rparr>)
   \<and> qe_move_window_y (- 1) ((initial False (bytes_of ''\<newline>ab\<newline>cd\<newline>ef\<newline>''))\<lparr>page_offset := 7\<rparr>) =
       Inr ((initial False (bytes_of ''\<newline>ab\<newline>cd\<newline>ef\<newline>''))\<lparr>page_offset := 0, dirty := True\<rparr>)
   \<and> \<not> clamps 1 ((initial False (bytes_of ''\<newline>ab\<newline>cd\<newline>ef\<newline>''))\<lparr>page_offset := 0, dirty := True\<rparr>)
   \<and> qe_move_window_y 1
         ((initial False (bytes_of ''\<newline>ab\<newline>cd\<newline>ef\<newline>''))\<lparr>page_offset := 0, dirty := True\<rparr>) =
       Inr ((initial False (bytes_of ''\<newline>ab\<newline>cd\<newline>ef\<newline>''))\<lparr>page_offset := 4, dirty := True\<rparr>)"
  by (simp add: eval_defs)

text \<open>
  In a file that begins with a newline, the pair started at offset 0 does not complete: the
  backward scan stops on the newline at offset 0 and the search for the line start reads
  the byte before the mapping.
\<close>

lemma scroll_round_trip_leading_newline_fault:
  "\<not> clamps 1 (initial False (bytes_of ''\<newline>a\<newline>b\<newline>''))
   \<and> qe_move_window_y 1 (initial False (bytes_of ''\<newline>a\<newline>b\<newline>'')) =
       Inr ((initial False (bytes_of ''\<newline>a\<newline>b\<newline>''))\<lparr>page_offset := 3, dirty := True\<rparr>)
   \<and> \<not> clamps (- 1) ((initial False (bytes_of ''\<newline>a\<newline>b\<newline>''))\<lparr>page_offset := 3, dirty := True\<rparr>)
   \<and> qe_move_window_y (- 1)
         ((initial False (bytes_of ''\<newline>a\<newline>b\<newline>''))\<lparr>page_offset := 3, dirty := True\<rparr>) =
       Inl (OutOfBounds ((initial False (bytes_of ''\<newline>a\<newline>b\<newline>''))\<lparr>page_offset := - 1, dirty := True\<rparr>))"
  by (simp add: eval_defs)

text \<open>
  C2, amended. Let \<open>n\<close> be nonzero (and small enough for \<open>-n\<close> and the counter to fit 32
  bits), let \<open>page_offset\<close> be on a line start, and let the backward scan of the pair start
  on a byte that is not a newline (the scan of the second call when \<open>n > 0\<close>, of the first
  when \<open>n < 0\<close>). Let the file not begin with a newline byte, or else let both the original
  and the intermediate \<open>page_offset\<close> be at least 2, so that no backward scan ends on the
  newline at offset 0. If neither call clamps, \<open>scrollByLines(n)\<close> followed by
  \<open>scrollByLines(-n)\<close> completes and restores \<open>page_offset\<close>.
\<close>

theorem scroll_round_trip:
  assumes n: "n \<noteq> 0" "\<bar>n\<bar> < 2 ^ 31 - 1"
    and first: "\<not> nl_at (page e) 0 \<or> (2 \<le> page_offset e \<and> 2 \<le> page_offset e1)"
    and al: "line_aligned e"
    and c1: "\<not> clamps n e"
    and e1: "qe_move_window_y n e = Inr e1"
    and c2: "\<not> clamps (- n) e1"
    and ne: "\<not> nl_at (page e) (if n > 0 then page_offset e1 else page_offset e)"
  shows "\<exists>e2. qe_move_window_y (- n) e1 = Inr e2 \<and> page_offset e2 = page_offset e"
proof -
  from c1 obtain q where q: "move_window_y_scan (page e) n 0 (page_offset e) = Finished q"
    by (auto simp: clamps_def split: loop_exit.splits)
  from qe_move_window_y_Inr [OF e1] have pg: "page e1 = page e" by simp
  from c2 pg obtain q' where
    q': "move_window_y_scan (page e) (- n) 0 (page_offset e1) = Finished q'"
    by (auto simp: clamps_def split: loop_exit.splits)
  from al have al': "page_offset e = 0 \<or> nl_at (page e) (page_offset e - 1)"
    by (simp add: line_aligned_def)
  show ?thesis
  proof (cases "n > 0")
    case True
    with e1 q have p1: "page_offset e1 = q" by (auto simp: qe_move_window_y_def step_of_def)
    from ne True p1 have "\<not> nl_at (page e) q" by simp
    from first have "\<not> nl_at (page e) 0 \<or> 2 \<le> page_offset e" by blast
    from round_trip_forward_first [OF True this al' q \<open>\<not> nl_at (page e) q\<close>] q' p1
    obtain r where "line_start_scan (page e) q' = Some r"
      "(if r \<noteq> 0 then r + 1 else r) = page_offset e" by auto
    with True q' p1 pg show ?thesis
      by (simp add: qe_move_window_y_def step_of_def)
  next
    case False
    with n have neg: "n < 0" by simp
    with e1 q obtain r where r: "line_start_scan (page e) q = Some r"
      and p1: "page_offset e1 = (if r \<noteq> 0 then r + 1 else r)"
      by (auto simp: qe_move_window_y_def step_of_def split: option.splits)
    from ne False have ne': "\<not> nl_at (page e) (page_offset e)" by simp
    from q' p1
    have fw: "move_window_y_scan (page e) (- n) 0 (if r \<noteq> 0 then r + 1 else r) = Finished q'"
      by simp
    from first p1
    have first': "\<not> nl_at (page e) 0 \<or> 2 \<le> (if r \<noteq> 0 then r + 1 else r)"
      by auto
    from round_trip_backward_first [OF neg first' al' ne' q r fw]
    have "q' = page_offset e" .
    with neg q' pg show ?thesis
      by (simp add: qe_move_window_y_def step_of_def)
  qed
qed

text \<open>The amended C2 at the buffer \<open>"\na\nb\nc\nd\n"\<close>, which begins with a newline,
  from the line start at offset 3 with \<open>n = 1\<close>: forward to offset 7, back to offset 3.\<close>

theorem scroll_round_trip_witness:
  "(1::int) \<noteq> 0 \<and> \<bar>1::int\<bar> < 2 ^ 31 - 1
   \<and> nl_at (bytes_of ''\<newline>a\<newline>b\<newline>c\<newline>d\<newline>'') 0 \<and> (2::int) \<le> 3 \<and> (2::int) \<le> 7
   \<and> line_aligned ((initial False (bytes_of ''\<newline>a\<newline>b\<newline>c\<newline>d\<newline>''))\<lparr>page_offset := 3\<rparr>)
   \<and> \<not> clamps 1 ((initial False (bytes_of ''\<newline>a\<newline>b\<newline>c\<newline>d\<newline>''))\<lparr>page_offset := 3\<rparr>)
   \<and> qe_move_window_y 1 ((initial False (bytes_of ''\<newline>a\<newline>b\<newline>c\<newline>d\<newline>''))\<lparr>page_offset := 3\<rparr>) =
       Inr ((initial False (bytes_of ''\<newline>a\<newline>b\<newline>c\<newline>d\<newline>''))\<lparr>page_offset := 7, dirty := True\<rparr>)
   \<and> \<not> clamps (- 1)
         ((initial False (bytes_of ''\<newline>a\<newline>b\<newline>c\<newline>d\<newline>''))\<lparr>page_offset := 7, dirty := True\<rparr>)
   \<and> \<not> nl_at (bytes_of ''\<newline>a\<newline>b\<newline>c\<newline>d\<newline>'') 7
   \<and> (\<exists>e2. qe_move_window_y (- 1)
               ((initial False (bytes_of ''\<newline>a\<newline>b\<newline>c\<newline>d\<newline>''))\<lparr>page_offset := 7, dirty := True\<rparr>) = Inr e2
             \<and> page_offset e2 = 3)"
proof -
  let ?e = "(initial False (bytes_of ''\<newline>a\<newline>b\<newline>c\<newline>d\<newline>''))\<lparr>page_offset := 3\<rparr>"
  let ?e1 = "(initial False (bytes_of ''\<newline>a\<newline>b\<newline>c\<newline>d\<newline>''))\<lparr>page_offset := 7, dirty := True\<rparr>"
  have h1: "(1::int) \<noteq> 0" and h2: "\<bar>1::int\<bar> < 2 ^ 31 - 1" by simp_all
  have h3: "\<not> nl_at (page ?e) 0 \<or> (2 \<le> page_offset ?e \<and> 2 \<le> page_offset ?e1)" by simp
  have h4: "line_aligned ?e" by (simp add: eval_defs)
  have h5: "\<not> clamps 1 ?e" by (simp add: eval_defs)
  have h6: "qe_move_window_y 1 ?e = Inr ?e1" by (simp add: eval_defs)
  have h7: "\<not> clamps (- 1) ?e1" by (simp add: eval_defs)
  have h8: "\<not> nl_at (page ?e) (if (1::int) > 0 then page_offset ?e1 else page_offset ?e)"
    by (simp add: eval_defs)
  from h8 have h8': "\<not> nl_at (bytes_of ''\<newline>a\<newline>b\<newline>c\<newline>d\<newline>'') 7" by (simp add: initial_def)
  have h0: "nl_at (bytes_of ''\<newline>a\<newline>b\<newline>c\<newline>d\<newline>'') 0"
    by (simp add: bytes_of_def nl_at_def NL_def)
  from scroll_round_trip [OF h1 h2 h3 h4 h5 h6 h7 h8]
  have "\<exists>e2. qe_move_window_y (- 1) ?e1 = Inr e2 \<and> page_offset e2 = 3" by simp
  with h0 h1 h2 h4 h5 h6 h7 h8' show ?thesis by simp
qed

text \<open>
  C3, as the specification states it: after any vertical scrolling from the initial state,
  \<open>page_offset\<close> is 0 or one plus the offset of a newline byte. In the buffer \<open>"abc"\<close>
  (no newline at all) \<open>scrollByLines(1)\<close> runs off the end and clamps to the last byte,
  offset 2, which is not a line start.
\<close>

theorem scroll_all_page_offset_counterexample:
  "map_sum (\<lambda>h. ()) (\<lambda>e. (page_offset e, line_aligned e))
     (scroll_all [1] (initial False (bytes_of ''abc''))) = Inr (2, False)"
  by (simp add: eval_defs)

lemma scroll_all_Inr:
  assumes "page_offset e0 = 0 \<or> page_offset e0 = st_size e0 - 1 \<or>
           nl_at (page e0) (page_offset e0 - 1)"
    and "scroll_all ns e0 = Inr e"
  shows "page e = page e0 \<and>
         (page_offset e = 0 \<or> page_offset e = st_size e - 1 \<or>
          nl_at (page e) (page_offset e - 1))"
  using assms
proof (induction ns arbitrary: e0)
  case Nil
  then show ?case by simp
next
  case (Cons n ns)
  from Cons.prems(2) obtain e1 where e1: "qe_move_window_y n e0 = Inr e1"
    and rest: "scroll_all ns e1 = Inr e"
    by (auto split: sum.splits)
  from qe_move_window_y_Inr [OF e1] have pg: "page e1 = page e0"
    and inv: "page_offset e1 = 0 \<or> page_offset e1 = st_size e1 - 1 \<or>
              nl_at (page e1) (page_offset e1 - 1)"
    by blast+
  from Cons.IH [OF inv rest] pg show ?case by auto
qed

text \<open>
  C3, amended: in every state reached from \<open>page_offset = 0\<close> through calls of
  \<open>qe_move_window_y\<close> (with any arguments, clamping or not), \<open>page_offset\<close> is 0, or
  \<open>S - 1\<close> (where the end-of-file clamp puts it), or one plus the offset of a newline
  byte.
\<close>

theorem scroll_all_page_offset:
  assumes "page_offset e0 = 0" and "scroll_all ns e0 = Inr e"
  shows "page_offset e = 0 \<or> page_offset e = st_size e - 1 \<or>
         nl_at (page e) (page_offset e - 1)"
  using scroll_all_Inr [OF _ assms(2)] assms(1) by blast

text \<open>The amended C3 at the buffer \<open>"a\nb\nc\nd\n"\<close> after \<open>scrollByLines(1)\<close>, which
  stops at offset 4, one past the newline at offset 3.\<close>

theorem scroll_all_page_offset_witness:
  "page_offset (initial False (bytes_of ''a\<newline>b\<newline>c\<newline>d\<newline>'')) = 0
   \<and> scroll_all [1] (initial False (bytes_of ''a\<newline>b\<newline>c\<newline>d\<newline>'')) =
       Inr ((initial False (bytes_of ''a\<newline>b\<newline>c\<newline>d\<newline>''))\<lparr>page_offset := 4, dirty := True\<rparr>)
   \<and> nl_at (bytes_of ''a\<newline>b\<newline>c\<newline>d\<newline>'') (4 - 1)"
proof -
  let ?e = "initial False (bytes_of ''a\<newline>b\<newline>c\<newline>d\<newline>'')"
  have h1: "page_offset ?e = 0" by (simp add: initial_def)
  have h2: "scroll_all [1] ?e = Inr (?e\<lparr>page_offset := 4, dirty := True\<rparr>)"
    by (simp add: eval_defs)
  from scroll_all_page_offset [OF h1 h2] h1 h2 show ?thesis
    by (simp add: initial_def bytes_of_def st_size_def)
qed

section \<open>The byte offset of the cursor\<close>

text \<open>
  C4. The specification expects \<open>cursorByteOffset()\<close> to scan from \<open>page_offset\<close> past
  \<open>cursor_y\<close> newlines and to add the column. In the buffer \<open>"a\nb\nc\n"\<close> with the
  cursor on row 2, column 0, that is offset 4 (the byte \<open>c\<close>). The loop stores the distance
  from the previous offset to the newline instead of the newline's own offset, so from the
  second round on the offset is wrong: the function returns 2 (the byte \<open>b\<close>).
\<close>

theorem cursor_byte_position_second_row:
  "qe_get_cursor_byte_position
     ((initial False (bytes_of ''a\<newline>b\<newline>c\<newline>''))\<lparr>cursor_y := 2\<rparr>) = Some 2"
  by code_simp

section \<open>Searching\<close>

lemma memmem_Some:
  "memmem hs nd = Some k \<Longrightarrow>
     k + length nd \<le> length hs \<and> take (length nd) (drop k hs) = nd \<and>
     (\<forall>j<k. take (length nd) (drop j hs) \<noteq> nd)"
proof (induction hs arbitrary: k)
  case Nil
  then show ?case by (simp split: if_splits)
next
  case (Cons h hs)
  show ?case
  proof (cases "take (length nd) (h # hs) = nd")
    case True
    with Cons.prems have "k = 0" by simp
    moreover from arg_cong [OF True, of length] have "length nd \<le> length (h # hs)"
      by simp
    ultimately show ?thesis using True by simp
  next
    case False
    with Cons.prems obtain k' where k': "memmem hs nd = Some k'" "k = Suc k'" by auto
    from Cons.IH [OF k'(1)] have ih: "k' + length nd \<le> length hs"
      "take (length nd) (drop k' hs) = nd" "\<And>j. j < k' \<Longrightarrow> take (length nd) (drop j hs) \<noteq> nd"
      by auto
    have "take (length nd) (drop j (h # hs)) \<noteq> nd" if "j < k" for j
    proof (cases j)
      case 0
      with False show ?thesis by simp
    next
      case (Suc j')
      with that k'(2) ih(3) [of j'] show ?thesis by simp
    qed
    with ih k'(2) show ?thesis by simp
  qed
qed

lemma memmem_None:
  "memmem hs nd = None \<Longrightarrow> j + length nd \<le> length hs \<Longrightarrow> take (length nd) (drop j hs) \<noteq> nd"
proof (induction hs arbitrary: j)
  case Nil
  then show ?case by (auto split: if_splits)
next
  case (Cons h hs)
  from Cons.prems(1) have ne: "take (length nd) (h # hs) \<noteq> nd" and rest: "memmem hs nd = None"
    by (auto split: if_splits)
  show ?case
  proof (cases j)
    case 0
    with ne show ?thesis by simp
  next
    case (Suc j')
    with Cons.prems(2) Cons.IH [OF rest, of j'] show ?thesis by simp
  qed
qed

lemma occurs_at_drop:
  assumes "0 \<le> start" "start \<le> st_size e"
  shows "occurs_at e (start + int j) \<longleftrightarrow>
         j + length (pattern e) \<le> length (drop (nat start) (page e)) \<and>
         take (length (pattern e)) (drop j (drop (nat start) (page e))) = pattern e"
proof -
  have "nat (start + int j) = j + nat start" using assms by simp
  moreover have "start + int j + int (length (pattern e)) \<le> int (length (page e)) \<longleftrightarrow>
        j + length (pattern e) \<le> length (page e) - nat start"
    using assms by (auto simp: st_size_def)
  ultimately show ?thesis using assms by (auto simp: occurs_at_def st_size_def add.commute)
qed

text \<open>
  C5, as the specification states it, has \<open>search\<close> return the not-found sentinel when the
  pattern is empty. The source hands the pattern to \<open>memmem\<close> without a test for length 0,
  and \<open>memmem\<close> finds an empty needle at the start of the haystack: with an empty search
  buffer the search from offset 0 of \<open>"abc"\<close> returns 0, not \<open>-1\<close>.
\<close>

theorem qe_search_empty_pattern_counterexample:
  "pattern (initial False (bytes_of ''abc'')) = []
   \<and> qe_search (initial False (bytes_of ''abc'')) 0 = Some 0"
  by (simp add: search_eval)

text \<open>
  C5, amended. For every buffer, every \<open>from_offset\<close> with \<open>0 \<le> from_offset \<le> size\<close> and
  every pattern in the search buffer, \<open>qe_search\<close> returns the smallest offset
  \<open>o \<ge> from_offset\<close> at which the pattern occurs as a contiguous run of bytes inside
  \<open>[from_offset, size)\<close>, and \<open>-1\<close> when there is no such offset (so also when
  \<open>from_offset = size\<close> and the pattern is not empty). The empty pattern occurs at
  \<open>from_offset\<close> itself, which is then the result.
\<close>

theorem qe_search_first_occurrence:
  assumes rng: "0 \<le> start" "start \<le> st_size e"
    and len: "unat (search_len e) \<le> length (search_buf e)"
  shows "\<exists>r. qe_search e start = Some r \<and>
           (if \<exists>off. start \<le> off \<and> occurs_at e off
            then start \<le> r \<and> occurs_at e r \<and> (\<forall>off. start \<le> off \<and> off < r \<longrightarrow> \<not> occurs_at e off)
            else r = - 1) \<and>
           (pattern e = [] \<longrightarrow> r = start)"
proof -
  let ?hs = "drop (nat start) (page e)"
  have shift: "\<exists>j. off = start + int j" if "start \<le> off" for off
    using that by (intro exI [of _ "nat (off - start)"]) simp
  show ?thesis
  proof (cases "memmem ?hs (pattern e)")
    case None
    then have r: "qe_search e start = Some (- 1)"
      using rng len by (simp add: qe_search_def pattern_def)
    have no: "\<not> occurs_at e off" if "start \<le> off" for off
    proof -
      from shift [OF that] obtain j where j: "off = start + int j" by blast
      show ?thesis
        using memmem_None [OF None, of j] occurs_at_drop [OF rng, of j] j by auto
    qed
    have "pattern e \<noteq> []"
    proof
      assume "pattern e = []"
      then have "occurs_at e start" using rng by (simp add: occurs_at_def)
      with no [of start] show False by simp
    qed
    with r no show ?thesis by auto
  next
    case (Some k)
    then have r: "qe_search e start = Some (start + int k)"
      using rng len by (simp add: qe_search_def pattern_def)
    from memmem_Some [OF Some]
    have k: "k + length (pattern e) \<le> length ?hs"
      "take (length (pattern e)) (drop k ?hs) = pattern e"
      "\<And>j. j < k \<Longrightarrow> take (length (pattern e)) (drop j ?hs) \<noteq> pattern e"
      by auto
    have occ: "occurs_at e (start + int k)"
      using occurs_at_drop [OF rng, of k] k by simp
    have least: "\<not> occurs_at e off" if "start \<le> off" "off < start + int k" for off
    proof -
      from shift [OF that(1)] obtain j where j: "off = start + int j" by blast
      with that(2) have "j < k" by simp
      with k(3) [of j] occurs_at_drop [OF rng, of j] j show ?thesis by simp
    qed
    have "k = 0" if "pattern e = []"
    proof (rule ccontr)
      assume "k \<noteq> 0"
      then have "0 < k" by simp
      from k(3) [OF this] that show False by simp
    qed
    with r occ least show ?thesis by auto
  qed
qed

text \<open>The scenario of the specification: \<open>"def"\<close> in \<open>"abcdefabcdef"\<close> is found at 3
  from offset 0, at 9 from offset 4, and not at all from offset 10.\<close>

lemma qe_search_examples:
  "qe_search ((initial False (bytes_of ''abcdefabcdef''))
       \<lparr>search_buf := bytes_of ''def'' @ replicate 61 0, search_len := 3\<rparr>) 0 = Some 3"
  "qe_search ((initial False (bytes_of ''abcdefabcdef''))
       \<lparr>search_buf := bytes_of ''def'' @ replicate 61 0, search_len := 3\<rparr>) 4 = Some 9"
  "qe_search ((initial False (bytes_of ''abcdefabcdef''))
       \<lparr>search_buf := bytes_of ''def'' @ replicate 61 0, search_len := 3\<rparr>) 10 = Some (- 1)"
  by code_simp+

text \<open>The amended C5 at the first of these searches.\<close>

theorem qe_search_first_occurrence_witness:
  "(0::int) \<le> 0
   \<and> 0 \<le> st_size ((initial False (bytes_of ''abcdefabcdef''))
              \<lparr>search_buf := bytes_of ''def'' @ replicate 61 0, search_len := 3\<rparr>)
   \<and> unat (search_len ((initial False (bytes_of ''abcdefabcdef''))
              \<lparr>search_buf := bytes_of ''def'' @ replicate 61 0, search_len := 3\<rparr>))
       \<le> length (search_buf ((initial False (bytes_of ''abcdefabcdef''))
              \<lparr>search_buf := bytes_of ''def'' @ replicate 61 0, search_len := 3\<rparr>))
   \<and> qe_search ((initial False (bytes_of ''abcdefabcdef''))
              \<lparr>search_buf := bytes_of ''def'' @ replicate 61 0, search_len := 3\<rparr>) 0 = Some 3
   \<and> occurs_at ((initial False (bytes_of ''abcdefabcdef''))
              \<lparr>search_buf := bytes_of ''def'' @ replicate 61 0, search_len := 3\<rparr>) 3
   \<and> \<not> occurs_at ((initial False (bytes_of ''abcdefabcdef''))
              \<lparr>search_buf := bytes_of ''def'' @ replicate 61 0, search_len := 3\<rparr>) 2"
proof -
  let ?e = "(initial False (bytes_of ''abcdefabcdef''))
              \<lparr>search_buf := bytes_of ''def'' @ replicate 61 0, search_len := 3\<rparr>"
  have h1: "(0::int) \<le> 0" by simp
  have h2: "0 \<le> st_size ?e" by (simp add: st_size_def)
  have h3: "unat (search_len ?e) \<le> length (search_buf ?e)" by (simp add: bytes_of_def)
  have v: "qe_search ?e 0 = Some 3" by code_simp
  have o: "occurs_at ?e 3" by code_simp
  from qe_search_first_occurrence [OF h1 h2 h3] v o
  have "\<forall>off. 0 \<le> off \<and> off < 3 \<longrightarrow> \<not> occurs_at ?e off"
    by (auto split: if_splits)
  then have "\<not> occurs_at ?e 2" by simp
  with h1 h2 h3 v o show ?thesis by simp
qed

section \<open>Moving the cursor to the right\<close>

lemma to_int32_id: "0 \<le> v \<Longrightarrow> v < 2 ^ 31 \<Longrightarrow> to_int32 v = v"
  by (simp add: to_int32_def sint_sbintrunc' signed_take_bit_int_eq_self)

lemma first_index_least:
  "k < length bs \<Longrightarrow> bs ! k = c \<Longrightarrow> (\<forall>j<k. bs ! j \<noteq> c) \<Longrightarrow> first_index c bs = Some k"
proof (induction bs arbitrary: k)
  case Nil
  then show ?case by simp
next
  case (Cons b bs)
  show ?case
  proof (cases k)
    case 0
    with Cons.prems show ?thesis by simp
  next
    case (Suc k')
    with Cons.prems have "b \<noteq> c" by auto
    moreover from Suc Cons.prems have "first_index c bs = Some k'"
      by (intro Cons.IH) auto
    ultimately show ?thesis using Suc by simp
  qed
qed

lemma memchr_first_newline:
  assumes "nl_at pg s" "nl_count pg 0 s = 0"
  shows "memchr pg 0 NL (int (length pg) - 0) = Some s"
proof -
  from assms(1) have s: "0 \<le> s" "nat s < length pg" "pg ! nat s = NL"
    by (auto simp: nl_at_def)
  have "pg ! j \<noteq> NL" if "j < nat s" for j
    using nl_count_zero [OF assms(2), of "int j"] that s by (auto simp: nl_at_def)
  with s have "first_index NL pg = Some (nat s)"
    by (intro first_index_least) auto
  with s show ?thesis by (simp add: memchr_def)
qed

lemma cursor_position_on_first_rows:
  assumes row: "cursor_row_start e L" and pox: "0 \<le> page_offset_x e"
    and inb: "L + page_offset_x e + uint (cursor_x e) < st_size e"
  shows "qe_get_cursor_byte_position e = Some (L + page_offset_x e + uint (cursor_x e))"
proof -
  have "cursor_line_scan (page e) (unat (cursor_y e)) (page_offset e) = Finished L"
  proof (cases "cursor_y e = 0")
    case True
    with row show ?thesis by (simp add: cursor_row_start_def)
  next
    case False
    with row have r: "cursor_y e = 1" "page_offset e = 0" "nl_at (page e) (L - 1)"
      "nl_count (page e) 0 (L - 1) = 0"
      by (auto simp: cursor_row_start_def)
    from memchr_first_newline [OF r(3) r(4)] r(1) r(2) show ?thesis by simp
  qed
  with inb show ?thesis
    by (simp add: qe_get_cursor_byte_position_def add.assoc)
qed

lemma cursor_right_on_first_rows:
  assumes row: "cursor_row_start e L" and pox: "0 \<le> page_offset_x e"
    and view: "page_offset_x e + uint (cursor_x e) + 1 < width t" and w: "width t \<le> 32767"
    and inb: "L + page_offset_x e + uint (cursor_x e) + 1 < st_size e"
  shows "qe_move_cursor_x t 1 e =
           Inr (if nl_at (page e) (L + page_offset_x e + uint (cursor_x e) + 1) then e
                else e\<lparr>cursor_x := cursor_x e + 1, dirty_cursor := True\<rparr>)"
proof -
  let ?o = "L + page_offset_x e + uint (cursor_x e)"
  have cx: "0 \<le> uint (cursor_x e)" by simp
  from row have L: "0 \<le> L" by (auto simp: cursor_row_start_def nl_at_def)
  from pox cx view w have nx: "to_int32 (page_offset_x e + uint (cursor_x e) + 1)
      = page_offset_x e + uint (cursor_x e) + 1"
    by (intro to_int32_id) auto
  from inb have "?o < st_size e" by simp
  from cursor_position_on_first_rows [OF row pox this]
  have pos: "qe_get_cursor_byte_position e = Some ?o" .
  from L pox cx inb have rd: "page_read e (?o + 1) = Some (page e ! nat (?o + 1))"
    by (simp add: page_read_def)
  from L pox cx inb have nl: "nl_at (page e) (?o + 1) \<longleftrightarrow> page e ! nat (?o + 1) = NL"
    by (simp add: nl_at_def st_size_def)
  from pox cx have nn: "\<not> page_offset_x e + uint (cursor_x e) + 1 < 0" by linarith
  from view have iv: "\<not> width t \<le> page_offset_x e + uint (cursor_x e) + 1" by simp
  from nx nn iv pos rd nl show ?thesis
    by (simp add: qe_move_cursor_x_def Let_def)
qed

text \<open>
  C6, as the specification states it: a move to the right is refused whenever the byte after
  the cursor is a newline, and on the line \<open>"klmno"\<close> five moves from column 0 succeed
  before the sixth is refused. In the source the cursor comes to rest on the last byte
  before the newline: after the cursor went down to the second row, four moves bring it to
  column 4 (the byte \<open>o\<close>) and the fifth is already refused. And the test is made only
  in the last branch of \<open>qe_move_cursor_x\<close>, taken when
  \<open>new_x = page_offset_x + cursor_x + 1\<close> is below the width: from column 9 of the first
  line, whose next byte is the newline, the move scrolls the view to \<open>page_offset_x = 10\<close>
  and puts the cursor in column 0.
\<close>

theorem cursor_right_counterexample:
  "process_keys \<lparr>width = 10, height = 5\<rparr>
     [ARROW_DOWN, ARROW_RIGHT, ARROW_RIGHT, ARROW_RIGHT, ARROW_RIGHT]
     (initial False (bytes_of ''abcdefghij\<newline>klmno\<newline>'')) =
     Inr ((initial False (bytes_of ''abcdefghij\<newline>klmno\<newline>''))
            \<lparr>cursor_x := 4, cursor_y := 1, dirty_cursor := True\<rparr>)
   \<and> qe_move_cursor_x \<lparr>width = 10, height = 5\<rparr> 1
       ((initial False (bytes_of ''abcdefghij\<newline>klmno\<newline>''))
            \<lparr>cursor_x := 4, cursor_y := 1, dirty_cursor := True\<rparr>) =
     Inr ((initial False (bytes_of ''abcdefghij\<newline>klmno\<newline>''))
            \<lparr>cursor_x := 4, cursor_y := 1, dirty_cursor := True\<rparr>)
   \<and> qe_get_cursor_byte_position
        ((initial False (bytes_of ''abcdefghij\<newline>klmno\<newline>''))\<lparr>cursor_x := 9\<rparr>) = Some 9
   \<and> page_read ((initial False (bytes_of ''abcdefghij\<newline>klmno\<newline>''))\<lparr>cursor_x := 9\<rparr>) (9 + 1)
       = Some NL
   \<and> qe_move_cursor_x \<lparr>width = 10, height = 5\<rparr> 1
       ((initial False (bytes_of ''abcdefghij\<newline>klmno\<newline>''))\<lparr>cursor_x := 9\<rparr>) =
     Inr ((initial False (bytes_of ''abcdefghij\<newline>klmno\<newline>''))
            \<lparr>cursor_x := 0, page_offset_x := 10, dirty_cursor := True\<rparr>)"
  by (simp add: cursor_eval)

text \<open>
  \<open>new_x\<close> counts the horizontal scroll, so once \<open>page_offset_x\<close> has reached the width the
  test is never made, whatever the column: in \<open>"abcdefghijklm\n"\<close> with
  \<open>page_offset_x = 10\<close> the cursor in column 2 stands on \<open>m\<close>, the next byte is the
  newline, and the move brings it to column 3.
\<close>

lemma cursor_right_in_scrolled_view:
  "qe_get_cursor_byte_position
     ((initial False (bytes_of ''abcdefghijklm\<newline>''))\<lparr>page_offset_x := 10, cursor_x := 2\<rparr>) = Some 12
   \<and> page_read ((initial False (bytes_of ''abcdefghijklm\<newline>''))\<lparr>page_offset_x := 10, cursor_x := 2\<rparr>)
        (12 + 1) = Some NL
   \<and> qe_move_cursor_x \<lparr>width = 10, height = 5\<rparr> 1
       ((initial False (bytes_of ''abcdefghijklm\<newline>''))\<lparr>page_offset_x := 10, cursor_x := 2\<rparr>) =
     Inr ((initial False (bytes_of ''abcdefghijklm\<newline>''))
            \<lparr>page_offset_x := 10, cursor_x := 3, dirty_cursor := True\<rparr>)"
  by (simp add: cursor_eval)

text \<open>
  On a row where \<open>qe_get_cursor_byte_position\<close> is off (C4), the test looks at the wrong
  byte: in \<open>"a\nb\ncd\n"\<close> with the cursor on row 2, column 1, the cursor stands on \<open>d\<close>
  (offset 5) and the next byte is the newline at offset 6, but the function returns 3, the
  byte at offset 4 is \<open>c\<close>, and the move brings the cursor to column 2.
\<close>

lemma cursor_right_on_third_row:
  "nl_at (bytes_of ''a\<newline>b\<newline>cd\<newline>'') 6
   \<and> qe_get_cursor_byte_position
       ((initial False (bytes_of ''a\<newline>b\<newline>cd\<newline>''))\<lparr>cursor_x := 1, cursor_y := 2\<rparr>) = Some 3
   \<and> qe_move_cursor_x \<lparr>width = 10, height = 5\<rparr> 1
       ((initial False (bytes_of ''a\<newline>b\<newline>cd\<newline>''))\<lparr>cursor_x := 1, cursor_y := 2\<rparr>) =
     Inr ((initial False (bytes_of ''a\<newline>b\<newline>cd\<newline>''))
            \<lparr>cursor_x := 2, cursor_y := 2, dirty_cursor := True\<rparr>)"
  by code_simp

text \<open>
  C6, amended. Let the cursor be on row 0, or on row 1 with \<open>page_offset = 0\<close> (the rows
  on which \<open>cursorByteOffset()\<close> is the cursor's place in the file), let \<open>L\<close> be the offset
  at which that row starts and \<open>o = L + page_offset_x + cursor_x\<close> the cursor's byte offset,
  with \<open>page_offset_x \<ge> 0\<close>. Let \<open>page_offset_x + cursor_x + 1\<close> be below the terminal
  width (the branch the source calls still in the current view; with \<open>page_offset_x = 0\<close>
  this is the new column staying inside the view), and let the byte after the cursor,
  at \<open>o + 1\<close>, lie inside the file. Then \<open>cursorByteOffset()\<close> returns \<open>o\<close>, and
  \<open>moveCursorHorizontal(+1)\<close> refuses the move and leaves the whole editor state
  unchanged (so \<open>cursor_x\<close>, \<open>cursor_y\<close>, \<open>page_offset\<close> and \<open>page_offset_x\<close>) when the
  byte at \<open>o + 1\<close> is a newline; when it is not, \<open>cursor_x\<close> grows by one. On the second
  line \<open>"klmno"\<close> of \<open>"abcdefghij\nklmno\n"\<close>, in the no-wrap layout of a 10-column, 5-row
  terminal, four successive moves from column 0 succeed and bring the cursor to column 4;
  the fifth and the sixth are refused.
\<close>

theorem cursor_right_refused_before_newline:
  "(cursor_row_start e L \<and> 0 \<le> page_offset_x e \<and>
    page_offset_x e + uint (cursor_x e) + 1 < width t \<and> width t \<le> 32767 \<and>
    L + page_offset_x e + uint (cursor_x e) + 1 < st_size e
      \<longrightarrow> qe_get_cursor_byte_position e = Some (L + page_offset_x e + uint (cursor_x e)) \<and>
          qe_move_cursor_x t 1 e =
            Inr (if nl_at (page e) (L + page_offset_x e + uint (cursor_x e) + 1) then e
                 else e\<lparr>cursor_x := cursor_x e + 1, dirty_cursor := True\<rparr>))
   \<and> process_keys \<lparr>width = 10, height = 5\<rparr>
     [ARROW_DOWN, ARROW_RIGHT, ARROW_RIGHT, ARROW_RIGHT, ARROW_RIGHT]
     (initial False (bytes_of ''abcdefghij\<newline>klmno\<newline>'')) =
     Inr ((initial False (bytes_of ''abcdefghij\<newline>klmno\<newline>''))
            \<lparr>cursor_x := 4, cursor_y := 1, dirty_cursor := True\<rparr>)
   \<and> process_keys \<lparr>width = 10, height = 5\<rparr> [ARROW_RIGHT, ARROW_RIGHT]
       ((initial False (bytes_of ''abcdefghij\<newline>klmno\<newline>''))
            \<lparr>cursor_x := 4, cursor_y := 1, dirty_cursor := True\<rparr>) =
     Inr ((initial False (bytes_of ''abcdefghij\<newline>klmno\<newline>''))
            \<lparr>cursor_x := 4, cursor_y := 1, dirty_cursor := True\<rparr>)"
proof -
  have b: "qe_get_cursor_byte_position e = Some (L + page_offset_x e + uint (cursor_x e)) \<and>
          qe_move_cursor_x t 1 e =
            Inr (if nl_at (page e) (L + page_offset_x e + uint (cursor_x e) + 1) then e
                 else e\<lparr>cursor_x := cursor_x e + 1, dirty_cursor := True\<rparr>)"
    if h: "cursor_row_start e L" "0 \<le> page_offset_x e"
      "page_offset_x e + uint (cursor_x e) + 1 < width t" "width t \<le> 32767"
      "L + page_offset_x e + uint (cursor_x e) + 1 < st_size e"
  proof -
    from h(5) have "L + page_offset_x e + uint (cursor_x e) < st_size e" by simp
    from cursor_position_on_first_rows [OF h(1) h(2) this]
      cursor_right_on_first_rows [OF h]
    show ?thesis by simp
  qed
  have c: "process_keys \<lparr>width = 10, height = 5\<rparr>
     [ARROW_DOWN, ARROW_RIGHT, ARROW_RIGHT, ARROW_RIGHT, ARROW_RIGHT]
     (initial False (bytes_of ''abcdefghij\<newline>klmno\<newline>'')) =
     Inr ((initial False (bytes_of ''abcdefghij\<newline>klmno\<newline>''))
            \<lparr>cursor_x := 4, cursor_y := 1, dirty_cursor := True\<rparr>)"
    by (simp add: cursor_eval)
  have d: "process_keys \<lparr>width = 10, height = 5\<rparr> [ARROW_RIGHT, ARROW_RIGHT]
       ((initial False (bytes_of ''abcdefghij\<newline>klmno\<newline>''))
            \<lparr>cursor_x := 4, cursor_y := 1, dirty_cursor := True\<rparr>) =
     Inr ((initial False (bytes_of ''abcdefghij\<newline>klmno\<newline>''))
            \<lparr>cursor_x := 4, cursor_y := 1, dirty_cursor := True\<rparr>)"
    by (simp add: cursor_eval)
  from b c d show ?thesis by blast
qed

text \<open>The amended C6 on the second line of \<open>"abcdefghij\nklmno\n"\<close> with the cursor in
  column 4, on the byte \<open>o\<close> at offset 15: the row starts at 11, the byte at offset 16 is
  the newline, and the move is refused.\<close>

theorem cursor_right_refused_before_newline_witness:
  "cursor_row_start ((initial False (bytes_of ''abcdefghij\<newline>klmno\<newline>''))
            \<lparr>cursor_x := 4, cursor_y := 1, dirty_cursor := True\<rparr>) 11
   \<and> 0 \<le> page_offset_x ((initial False (bytes_of ''abcdefghij\<newline>klmno\<newline>''))
            \<lparr>cursor_x := 4, cursor_y := 1, dirty_cursor := True\<rparr>)
   \<and> (0::int) + uint (4 :: 16 word) + 1 < width \<lparr>width = 10, height = 5\<rparr>
   \<and> width \<lparr>width = 10, height = 5\<rparr> \<le> 32767
   \<and> (11::int) + 0 + uint (4 :: 16 word) + 1
       < st_size ((initial False (bytes_of ''abcdefghij\<newline>klmno\<newline>''))
            \<lparr>cursor_x := 4, cursor_y := 1, dirty_cursor := True\<rparr>)
   \<and> nl_at (bytes_of ''abcdefghij\<newline>klmno\<newline>'') 16
   \<and> qe_get_cursor_byte_position ((initial False (bytes_of ''abcdefghij\<newline>klmno\<newline>''))
            \<lparr>cursor_x := 4, cursor_y := 1, dirty_cursor := True\<rparr>) = Some 15
   \<and> qe_move_cursor_x \<lparr>width = 10, height = 5\<rparr> 1
        ((initial False (bytes_of ''abcdefghij\<newline>klmno\<newline>''))
            \<lparr>cursor_x := 4, cursor_y := 1, dirty_cursor := True\<rparr>) =
       Inr ((initial False (bytes_of ''abcdefghij\<newline>klmno\<newline>''))
            \<lparr>cursor_x := 4, cursor_y := 1, dirty_cursor := True\<rparr>)"
proof -
  let ?e = "(initial False (bytes_of ''abcdefghij\<newline>klmno\<newline>''))
            \<lparr>cursor_x := 4, cursor_y := 1, dirty_cursor := True\<rparr>"
  let ?t = "\<lparr>width = 10, height = 5\<rparr>"
  have n10: "nl_at (bytes_of ''abcdefghij\<newline>klmno\<newline>'') 10"
    by (simp add: bytes_of_def nl_at_def NL_def)
  have z: "nl_count (bytes_of ''abcdefghij\<newline>klmno\<newline>'') 0 10 = 0"
    by code_simp
  have h1: "cursor_row_start ?e 11"
    using n10 z by (simp add: cursor_row_start_def initial_def)
  have h2: "0 \<le> page_offset_x ?e" by (simp add: initial_def)
  have h3: "page_offset_x ?e + uint (cursor_x ?e) + 1 < width ?t" by (simp add: initial_def)
  have h4: "width ?t \<le> 32767" by simp
  have h5: "11 + page_offset_x ?e + uint (cursor_x ?e) + 1 < st_size ?e"
    by (simp add: initial_def st_size_def bytes_of_def)
  have n16: "nl_at (bytes_of ''abcdefghij\<newline>klmno\<newline>'') 16"
    by (simp add: bytes_of_def nl_at_def NL_def)
  from cursor_right_refused_before_newline [of ?e 11 ?t, THEN conjunct1]
    h1 h2 h3 h4 h5
  have r: "qe_get_cursor_byte_position ?e = Some (11 + page_offset_x ?e + uint (cursor_x ?e)) \<and>
     qe_move_cursor_x ?t 1 ?e =
       Inr (if nl_at (page ?e) (11 + page_offset_x ?e + uint (cursor_x ?e) + 1) then ?e
            else ?e\<lparr>cursor_x := cursor_x ?e + 1, dirty_cursor := True\<rparr>)"
    by blast
  have pg: "page ?e = bytes_of ''abcdefghij\<newline>klmno\<newline>''" by (simp add: initial_def)
  from r n16 pg have "qe_get_cursor_byte_position ?e = Some 15"
    "qe_move_cursor_x ?t 1 ?e = Inr ?e"
    by (simp_all add: initial_def)
  with h1 h2 h3 h4 h5 n16 show ?thesis by (simp add: initial_def)
qed

section \<open>Overwriting in Insert mode\<close>

lemma first_index_Some: "first_index c bs = Some k \<Longrightarrow> k < length bs"
  by (induction bs arbitrary: k) (auto split: if_splits)

lemma memchr_Some:
  assumes "0 \<le> off" "memchr pg off c len = Some s"
  shows "off \<le> s \<and> s < int (length pg)"
proof -
  from assms(2) obtain k where k: "first_index c (take (nat len) (drop (nat off) pg)) = Some k"
    and s: "s = off + int k"
    by (auto simp: memchr_def)
  from first_index_Some [OF k] have "k < length pg - nat off" by simp
  with s assms(1) show ?thesis by auto
qed

lemma cursor_line_scan_range:
  "0 \<le> off \<Longrightarrow> off \<le> int (length pg) \<Longrightarrow>
     (case cursor_line_scan pg k off of
        Finished r \<Rightarrow> 0 \<le> r \<and> r \<le> int (length pg)
      | Returned r \<Rightarrow> r = int (length pg) - 1
      | Faulted \<Rightarrow> False)"
proof (induction k arbitrary: off)
  case 0
  then show ?case by simp
next
  case (Suc k)
  show ?case
  proof (cases "memchr pg off NL (int (length pg) - off)")
    case None
    with Suc.prems show ?thesis by simp
  next
    case (Some s)
    from memchr_Some [OF Suc.prems(1) Some] have "0 \<le> s - off + 1" "s - off + 1 \<le> int (length pg)"
      using Suc.prems by auto
    from Suc.IH [OF this] Some Suc.prems show ?thesis by simp
  qed
qed

lemma cursor_byte_position_range:
  assumes "page e \<noteq> []" "0 \<le> page_offset e" "page_offset e \<le> st_size e" "0 \<le> page_offset_x e"
  shows "\<exists>off. qe_get_cursor_byte_position e = Some off \<and> 0 \<le> off \<and> off < st_size e"
proof -
  from assms(1) have pos: "0 < st_size e" by (simp add: st_size_def)
  have "0 \<le> uint (cursor_x e)" by simp
  with cursor_line_scan_range [of "page_offset e" "page e" "unat (cursor_y e)"] assms pos
  show ?thesis
    by (auto simp: qe_get_cursor_byte_position_def st_size_def split: loop_exit.splits)
qed

lemma qe_move_cursor_x_page:
  "\<exists>e'. state_after (qe_move_cursor_x t x e) = Some e' \<and> page e' = page e"
  by (auto simp: qe_move_cursor_x_def Let_def split: option.splits)

text \<open>
  In Insert mode, let \<open>c\<close> be a byte as \<open>qe_readkey\<close> returns it (a \<open>char\<close>, so
  \<open>-128..255\<close> covers both signs of \<open>char\<close>) that is not one of the keys Insert mode
  handles otherwise, and let \<open>page_offset\<close> lie in \<open>0..S\<close> and \<open>page_offset_x\<close> be at
  least 0 over a file of at least one byte. Then \<open>qe_get_cursor_byte_position\<close> gives an offset \<open>o\<close>
  inside the file, and in the state the key leaves behind (also when the advance of the
  cursor that follows the store stopped at the look-ahead past the last byte) the buffer is
  the old one with \<open>c\<close> stored at \<open>o\<close>.
\<close>

lemma insert_byte_stores_at_cursor:
  assumes ins: "mode e = MODE_INSERT"
    and byte: "- 128 \<le> c" "c < 256"
    and key: "c \<notin> {CTRL (key CHR ''c''), ESC, CTRL (key CHR ''d''), CTRL (key CHR ''u''),
                  CTRL (key CHR ''h''), CTRL (key CHR ''l'')}"
    and rng: "page e \<noteq> []" "0 \<le> page_offset e" "page_offset e \<le> st_size e"
      "0 \<le> page_offset_x e"
  shows "\<exists>off e'. qe_get_cursor_byte_position e = Some off \<and> 0 \<le> off \<and> off < st_size e \<and>
           state_after (qe_process_key t c e) = Some e' \<and>
           page e' = (page e)[nat off := word_of_int c] \<and>
           length (page e') = length (page e) \<and>
           page e' ! nat off = word_of_int c \<and>
           (\<forall>i. i < length (page e) \<and> i \<noteq> nat off \<longrightarrow> page e' ! i = page e ! i)"
proof -
  from cursor_byte_position_range [of e] rng
  obtain off where off: "qe_get_cursor_byte_position e = Some off" "0 \<le> off" "off < st_size e"
    by auto
  define e1 where "e1 = e\<lparr>page := (page e)[nat off := word_of_int c]\<rparr>"
  from byte key have nokey: "c \<noteq> CTRL (key CHR ''c'')" "c \<noteq> ESC" "c \<noteq> PGDN"
    "c \<noteq> CTRL (key CHR ''d'')" "c \<noteq> PGUP" "c \<noteq> CTRL (key CHR ''u'')" "c \<noteq> ARROW_DOWN"
    "c \<noteq> ARROW_UP" "c \<noteq> ARROW_LEFT" "c \<noteq> ARROW_RIGHT" "c \<noteq> CTRL (key CHR ''h'')"
    "c \<noteq> CTRL (key CHR ''l'')"
    by (auto simp: PGDN_def PGUP_def ARROW_DOWN_def ARROW_UP_def ARROW_LEFT_def ARROW_RIGHT_def)
  then have pk: "qe_process_key t c e = insert_byte t c e"
    using ins by (simp add: qe_process_key_def process_key_insert_def)
  from qe_move_cursor_x_page [of t 1 e1]
  obtain e2 where e2: "state_after (qe_move_cursor_x t 1 e1) = Some e2" "page e2 = page e1"
    by blast
  have "\<exists>e'. state_after (insert_byte t c e) = Some e' \<and> page e' = page e1"
  proof (cases "page_read e1 (off + 1)")
    case None
    with off show ?thesis by (auto simp: insert_byte_def e1_def Let_def)
  next
    case (Some b)
    show ?thesis
    proof (cases "b = NL")
      case True
      with Some off show ?thesis by (auto simp: insert_byte_def e1_def Let_def)
    next
      case False
      show ?thesis
      proof (cases "qe_move_cursor_x t 1 e1")
        case (Inl h)
        with e2 Some False off show ?thesis
          by (cases h) (auto simp: insert_byte_def e1_def Let_def)
      next
        case (Inr e3)
        with e2 Some False off show ?thesis
          by (auto simp: insert_byte_def e1_def Let_def)
      qed
    qed
  qed
  then obtain e' where e': "state_after (insert_byte t c e) = Some e'" "page e' = page e1"
    by blast
  from off have lt: "nat off < length (page e)" by (simp add: st_size_def)
  with e' pk off show ?thesis by (auto simp: e1_def)
qed

text \<open>
  C7. The specification expects an Insert-mode keypress to change the buffer at exactly the
  index \<open>o = cursorByteOffset()\<close>. The lemma above needs \<open>page_offset_x \<ge> 0\<close>, and the
  source does not keep that: a search whose match starts on a newline byte sets
  \<open>page_offset\<close> one past the match and \<open>page_offset_x = actual_addr - addr = -1\<close>. In the
  writable buffer \<open>"a\nb\n"\<close> the keys \<open>/\<close>, Ctrl-J, ENTER search for a newline and leave
  \<open>page_offset = 2\<close>, \<open>page_offset_x = -1\<close>; Ctrl-U scrolls back to \<open>page_offset = 0\<close>;
  \<open>i\<close> enters Insert mode. Then \<open>qe_get_cursor_byte_position\<close>, which caps the offset only
  at the end of the file, returns \<open>-1\<close>, and the key \<open>x\<close> is stored at \<open>page[-1]\<close>, before the
  mapping: processing stops there, and no byte of the buffer has changed.
\<close>

theorem insert_stores_before_the_file:
  "map_sum (\<lambda>h. ()) (\<lambda>e. (mode e, page_offset e, page_offset_x e, cursor_x e, cursor_y e))
     (process_keys \<lparr>width = 10, height = 5\<rparr>
        [key CHR ''/'', 10, ENTER, CTRL (key CHR ''u''), key CHR ''i'']
        (initial False (bytes_of ''a\<newline>b\<newline>''))) = Inr (MODE_INSERT, 0, - 1, 0, 0)
   \<and> isl (process_keys \<lparr>width = 10, height = 5\<rparr>
        [key CHR ''/'', 10, ENTER, CTRL (key CHR ''u''), key CHR ''i'', key CHR ''x'']
        (initial False (bytes_of ''a\<newline>b\<newline>'')))
   \<and> map_option (\<lambda>e. (qe_get_cursor_byte_position e, page e))
       (state_after (process_keys \<lparr>width = 10, height = 5\<rparr>
        [key CHR ''/'', 10, ENTER, CTRL (key CHR ''u''), key CHR ''i'', key CHR ''x'']
        (initial False (bytes_of ''a\<newline>b\<newline>'')))) = Some (Some (- 1), bytes_of ''a\<newline>b\<newline>'')"
  by code_simp

section \<open>Key processing\<close>

text \<open>
  C8. The specification expects \<open>0 \<le> cursor_y \<le> height - 2\<close> in every reachable state.
  With a terminal of height 3 (rows 0 and 1 show the file) over \<open>"a\nb\nc\n"\<close>, the keys
  \<open>i\<close>, \<open>x\<close>, \<open>x\<close> overwrite two bytes that each stand before a newline; the Insert-mode
  advance adds one to \<open>cursor_y\<close> each time without the bound check that
  \<open>qe_move_cursor_y\<close> makes, and \<open>cursor_y\<close> ends at 2, above \<open>height - 2 = 1\<close>.
\<close>

theorem insert_advance_leaves_cursor_y_range:
  "map_sum (\<lambda>h. ()) (\<lambda>e. (cursor_x e, cursor_y e, page_offset e))
     (process_keys \<lparr>width = 10, height = 3\<rparr> [key CHR ''i'', key CHR ''x'', key CHR ''x'']
        (initial False (bytes_of ''a\<newline>b\<newline>c\<newline>''))) = Inr (0, 2, 0)"
  by code_simp

text \<open>
  C9. The specification expects \<open>search_len\<close> to stay within 0..63 and every store into the
  search buffer to stay within its 64 bytes. A backspace arriving while the pattern is empty
  (keys \<open>/\<close>, then backspace) subtracts one from the unsigned \<open>search_len\<close>, which wraps
  to \<open>2^64 - 1\<close>; the test that follows assigns 0 only when the length is already 0, and
  the terminating zero is stored at that index, outside the buffer.
\<close>

theorem search_backspace_on_empty_underflows:
  "process_keys \<lparr>width = 10, height = 3\<rparr> [key CHR ''/'', BACKSPACE]
     (initial False (bytes_of ''abc'')) =
   Inl (OutOfBounds ((initial False (bytes_of ''abc''))
          \<lparr>mode := MODE_SEARCH, dirty := True, search_len := - 1\<rparr>))
   \<and> unat (- 1 :: 64 word) = 18446744073709551615"
  by (simp add: key_defs process_key_defs initial_def bytes_of_def
      unsigned_minus_1_eq_mask mask_eq_exp_minus_1 list_update_same_conv)

text \<open>
  C10. The specification expects the look-ahead at \<open>cursorByteOffset() + 1\<close> to stay inside
  the file. In a file of one byte the cursor starts on the last byte (offset 0, and
  \<open>S - 1 = 0\<close>); a cursor-right key reads offset 1, and so does the advance after an
  Insert-mode overwrite: both read the byte at offset \<open>S\<close>, outside the mapping.
\<close>

theorem lookahead_reads_past_last_byte:
  "qe_get_cursor_byte_position (initial False (bytes_of ''a'')) = Some 0
   \<and> page_read (initial False (bytes_of ''a'')) (0 + 1) = None
   \<and> qe_process_key \<lparr>width = 10, height = 3\<rparr> (key CHR ''l'') (initial False (bytes_of ''a''))
       = Inl (OutOfBounds (initial False (bytes_of ''a'')))
   \<and> process_keys \<lparr>width = 10, height = 3\<rparr> [key CHR ''i'', key CHR ''x'']
        (initial False (bytes_of ''a''))
       = Inl (OutOfBounds ((initial False (bytes_of ''a''))
               \<lparr>mode := MODE_INSERT, page := bytes_of ''x''\<rparr>))"
  by (simp add: initial_def bytes_of_def nav_defs key_defs process_key_defs)

end
